theory Spec2Isabelle
  imports Complex_Main
begin

section \<open>Exceptions as values\<close>

text \<open>
  The Python sources raise only implicitly: an index outside a sequence raises
  IndexError, numpy's random routines and argmin raise ValueError on an empty
  range.  Every such raise is a value \<open>Inl e\<close> of the model.  Floating point
  numbers are idealised as reals, numpy's 64-bit integers as \<open>int\<close>.
\<close>

datatype error = IndexError | ValueError

definition ebind :: "error + 'a \<Rightarrow> ('a \<Rightarrow> error + 'b) \<Rightarrow> error + 'b" where
  "ebind m f = (case m of Inl e \<Rightarrow> Inl e | Inr x \<Rightarrow> f x)"

text \<open>A \<open>for x in xs\<close> loop over a state \<open>s\<close>; an exception leaves the loop.\<close>

fun efold :: "('a \<Rightarrow> 's \<Rightarrow> error + 's) \<Rightarrow> 'a list \<Rightarrow> 's \<Rightarrow> error + 's" where
  "efold f [] s = Inr s"
| "efold f (x # xs) s = ebind (f x s) (efold f xs)"

text \<open>\<open>xs[i]\<close> for an index produced by \<open>range\<close> (never negative).\<close>

definition np_get :: "'a list \<Rightarrow> nat \<Rightarrow> error + 'a" where
  "np_get xs i = (if i < length xs then Inr (xs ! i) else Inl IndexError)"

text \<open>\<open>xs[i]\<close> for an arbitrary integer: Python counts a negative index from the end.\<close>

definition py_index :: "'a list \<Rightarrow> int \<Rightarrow> error + 'a" where
  "py_index xs i =
     (if 0 \<le> i \<and> i < int (length xs) then Inr (xs ! nat i)
      else if i < 0 \<and> - int (length xs) \<le> i then Inr (xs ! nat (int (length xs) + i))
      else Inl IndexError)"

text \<open>\<open>m[i, j]\<close> on a two-dimensional numpy array, both indices non-negative.\<close>

definition np_get2 :: "'a list list \<Rightarrow> nat \<Rightarrow> nat \<Rightarrow> error + 'a" where
  "np_get2 m i j = ebind (np_get m i) (\<lambda>row. np_get row j)"

section \<open>The problem model (problem.py)\<close>

record cloudlet_type =
  ct_R :: real
  ct_CPU :: real
  ct_MEM :: real
  ct_STO :: real

record demand =
  d_cpu :: real
  d_mem :: real
  d_sto :: real

record "instance" =
  inst_locations :: "(real \<times> real) list"
  inst_devices :: "(real \<times> real) list"
  inst_cloudlet_types :: "cloudlet_type list"
  inst_devices_demands :: "demand list"
  inst_placement_cost :: "real list list"

record problem =
  prob_locations :: "(real \<times> real) list"
  prob_devices :: "(real \<times> real) list"
  prob_cloudlet_types :: "cloudlet_type list"
  prob_demands :: "demand list"
  prob_placement_cost :: "real list list"
  prob_P :: nat
  prob_E :: nat
  prob_T :: nat
  prob_dist :: "real list list"

text \<open>\<open>np.linalg.norm\<close> of the difference of two points of the plane.\<close>

definition norm2 :: "real \<times> real \<Rightarrow> real \<times> real \<Rightarrow> real" where
  "norm2 a b = sqrt ((fst a - fst b)\<^sup>2 + (snd a - snd b)\<^sup>2)"

text \<open>\<open>CloudletProblem.__init__\<close>: the distance matrix has one row per device.\<close>

definition CloudletProblem_init :: "instance \<Rightarrow> problem" where
  "CloudletProblem_init inst =
     \<lparr> prob_locations = inst_locations inst,
       prob_devices = inst_devices inst,
       prob_cloudlet_types = inst_cloudlet_types inst,
       prob_demands = inst_devices_demands inst,
       prob_placement_cost = inst_placement_cost inst,
       prob_P = length (inst_locations inst),
       prob_E = length (inst_devices inst),
       prob_T = length (inst_cloudlet_types inst),
       prob_dist = map (\<lambda>d. map (\<lambda>l. norm2 d l) (inst_locations inst)) (inst_devices inst) \<rparr>"

record metrics =
  placement_cost :: real
  latency :: real
  penalty :: real
  fitness :: real

subsection \<open>evaluate\<close>

text \<open>Lines 50-54: the placement cost loop, one step per location \<open>p\<close>.\<close>

definition placement_step :: "problem \<Rightarrow> int list \<Rightarrow> nat \<Rightarrow> real \<Rightarrow> error + real" where
  "placement_step prob place_loc p placement_total =
     ebind (np_get place_loc p) (\<lambda>c.
       if c > 0
       then ebind (np_get2 (prob_placement_cost prob) (nat (c - 1)) p)
              (\<lambda>v. Inr (placement_total + v))
       else Inr placement_total)"

text \<open>Lines 57-63: the latency loop, one step per device \<open>e\<close>.\<close>

definition latency_step :: "problem \<Rightarrow> int list \<Rightarrow> nat \<Rightarrow> real \<Rightarrow> error + real" where
  "latency_step prob assign_dev e lat =
     ebind (np_get assign_dev e) (\<lambda>p.
       if p < 0 \<or> p \<ge> int (prob_P prob) then Inr (lat + 1000000)
       else ebind (np_get2 (prob_dist prob) e (nat p)) (\<lambda>d. Inr (lat + d)))"

text \<open>Lines 69-81: the coverage penalty of device \<open>e\<close>.\<close>

definition coverage_step ::
  "problem \<Rightarrow> int list \<Rightarrow> int list \<Rightarrow> nat \<Rightarrow> real \<Rightarrow> error + real" where
  "coverage_step prob place_loc assign_dev e pen =
     ebind (np_get assign_dev e) (\<lambda>p.
       if p < 0 \<or> p \<ge> int (prob_P prob) then Inr (pen + 100000)
       else ebind (np_get place_loc (nat p)) (\<lambda>c.
         if c = 0 then Inr (pen + 100000)
         else ebind (py_index (prob_cloudlet_types prob) (c - 1)) (\<lambda>t.
              ebind (np_get2 (prob_dist prob) e (nat p)) (\<lambda>d.
                if d > ct_R t + 1 / 1000000000 then Inr (pen + 100000) else Inr pen))))"

text \<open>
  Lines 85-94 (and 210-219 of the repair): the demand aggregated at every
  location, three arrays of length \<open>P\<close> that start at zero.
\<close>

record used =
  cpu_used :: "real list"
  mem_used :: "real list"
  sto_used :: "real list"

definition used_zeros :: "problem \<Rightarrow> used" where
  "used_zeros prob =
     \<lparr> cpu_used = replicate (prob_P prob) 0,
       mem_used = replicate (prob_P prob) 0,
       sto_used = replicate (prob_P prob) 0 \<rparr>"

definition used_add :: "used \<Rightarrow> nat \<Rightarrow> demand \<Rightarrow> used" where
  "used_add u p d =
     \<lparr> cpu_used = (cpu_used u)[p := cpu_used u ! p + d_cpu d],
       mem_used = (mem_used u)[p := mem_used u ! p + d_mem d],
       sto_used = (sto_used u)[p := sto_used u ! p + d_sto d] \<rparr>"

definition used_step :: "problem \<Rightarrow> int list \<Rightarrow> nat \<Rightarrow> used \<Rightarrow> error + used" where
  "used_step prob assign_dev e u =
     ebind (np_get assign_dev e) (\<lambda>p.
       if 0 \<le> p \<and> p < int (prob_P prob)
       then ebind (np_get (prob_demands prob) e) (\<lambda>d. Inr (used_add u (nat p) d))
       else Inr u)"

definition demand_used :: "problem \<Rightarrow> int list \<Rightarrow> error + used" where
  "demand_used prob assign_dev =
     efold (used_step prob assign_dev) [0..<prob_E prob] (used_zeros prob)"

text \<open>Lines 96-109: the capacity penalty of location \<open>p\<close>.\<close>

definition over_pen :: "real \<Rightarrow> real \<Rightarrow> real \<Rightarrow> real" where
  "over_pen u cap pen = (if u > cap + 1 / 1000000000 then pen + (u - cap) * 10000 else pen)"

definition capacity_step :: "problem \<Rightarrow> int list \<Rightarrow> used \<Rightarrow> nat \<Rightarrow> real \<Rightarrow> error + real" where
  "capacity_step prob place_loc u p pen =
     ebind (np_get place_loc p) (\<lambda>c.
       if c = 0
       then (if cpu_used u ! p > 0 \<or> mem_used u ! p > 0 \<or> sto_used u ! p > 0
             then Inr (pen + 1000000) else Inr pen)
       else ebind (py_index (prob_cloudlet_types prob) (c - 1)) (\<lambda>t.
              Inr (over_pen (sto_used u ! p) (ct_STO t)
                    (over_pen (mem_used u ! p) (ct_MEM t)
                      (over_pen (cpu_used u ! p) (ct_CPU t) pen)))))"

text \<open>The default of the keyword argument \<open>penalty_coeff\<close>.\<close>

definition penalty_coeff_default :: real where
  "penalty_coeff_default = 1000000"

definition evaluate :: "problem \<Rightarrow> int list \<Rightarrow> int list \<Rightarrow> real \<Rightarrow> error + metrics" where
  "evaluate prob place_loc assign_dev penalty_coeff =
     ebind (efold (placement_step prob place_loc) [0..<prob_P prob] 0) (\<lambda>placement_total.
     ebind (efold (latency_step prob assign_dev) [0..<prob_E prob] 0) (\<lambda>lat.
     ebind (efold (coverage_step prob place_loc assign_dev) [0..<prob_E prob] 0) (\<lambda>pen1.
     ebind (demand_used prob assign_dev) (\<lambda>u.
     ebind (efold (capacity_step prob place_loc u) [0..<prob_P prob] pen1) (\<lambda>pen.
       Inr \<lparr> placement_cost = placement_total,
             latency = lat,
             penalty = pen,
             fitness = 0.4 * placement_total + 0.6 * lat + pen * penalty_coeff \<rparr>)))))"

section \<open>Well-formed inputs and reference quantities\<close>

text \<open>
  The shapes the sources take for granted: one demand record per device, a cost
  table with one row per cloudlet type and one column per location, a distance
  matrix with one row per device and one column per location, and placement
  entries between 0 and \<open>T\<close>.
\<close>

definition dist_ok :: "problem \<Rightarrow> bool" where
  "dist_ok prob \<longleftrightarrow> length (prob_dist prob) = prob_E prob \<and>
     list_all (\<lambda>row. length row = prob_P prob) (prob_dist prob)"

definition demands_ok :: "problem \<Rightarrow> bool" where
  "demands_ok prob \<longleftrightarrow> length (prob_demands prob) = prob_E prob"

definition cost_ok :: "problem \<Rightarrow> bool" where
  "cost_ok prob \<longleftrightarrow> length (prob_placement_cost prob) = prob_T prob \<and>
     list_all (\<lambda>row. length row = prob_P prob) (prob_placement_cost prob)"

definition types_ok :: "problem \<Rightarrow> bool" where
  "types_ok prob \<longleftrightarrow> length (prob_cloudlet_types prob) = prob_T prob"

definition valid_placement :: "problem \<Rightarrow> int list \<Rightarrow> bool" where
  "valid_placement prob place_loc \<longleftrightarrow> length place_loc = prob_P prob \<and>
     list_all (\<lambda>c. 0 \<le> c \<and> c \<le> int (prob_T prob)) place_loc"

definition valid_instance :: "instance \<Rightarrow> bool" where
  "valid_instance inst \<longleftrightarrow>
     length (inst_devices_demands inst) = length (inst_devices inst) \<and>
     length (inst_placement_cost inst) = length (inst_cloudlet_types inst) \<and>
     list_all (\<lambda>row. length row = length (inst_locations inst)) (inst_placement_cost inst)"

text \<open>What device \<open>e\<close> adds to the latency.\<close>

definition lat_term :: "problem \<Rightarrow> int list \<Rightarrow> nat \<Rightarrow> real" where
  "lat_term prob assign_dev e =
     (if assign_dev ! e < 0 \<or> assign_dev ! e \<ge> int (prob_P prob) then 1000000
      else prob_dist prob ! e ! nat (assign_dev ! e))"

text \<open>The demand (one resource \<open>sel\<close>) of the first \<open>n\<close> devices that sit at location \<open>p\<close>.\<close>

definition assigned_sum ::
  "problem \<Rightarrow> int list \<Rightarrow> (demand \<Rightarrow> real) \<Rightarrow> nat \<Rightarrow> nat \<Rightarrow> real" where
  "assigned_sum prob assign_dev sel n p =
     sum_list (map (\<lambda>e. if assign_dev ! e = int p then sel (prob_demands prob ! e) else 0) [0..<n])"

definition used_is :: "problem \<Rightarrow> int list \<Rightarrow> nat \<Rightarrow> used \<Rightarrow> bool" where
  "used_is prob a n u \<longleftrightarrow>
     length (cpu_used u) = prob_P prob \<and> length (mem_used u) = prob_P prob \<and>
     length (sto_used u) = prob_P prob \<and>
     (\<forall>p < prob_P prob. cpu_used u ! p = assigned_sum prob a d_cpu n p \<and>
        mem_used u ! p = assigned_sum prob a d_mem n p \<and>
        sto_used u ! p = assigned_sum prob a d_sto n p)"

text \<open>Location \<open>p\<close> carries a positive demand on some resource.\<close>

definition loaded :: "problem \<Rightarrow> int list \<Rightarrow> nat \<Rightarrow> bool" where
  "loaded prob assign_dev p \<longleftrightarrow>
     assigned_sum prob assign_dev d_cpu (prob_E prob) p > 0 \<or>
     assigned_sum prob assign_dev d_mem (prob_E prob) p > 0 \<or>
     assigned_sum prob assign_dev d_sto (prob_E prob) p > 0"

section \<open>Concrete instances\<close>

text \<open>One location at the origin, one device three units away, one cloudlet type.\<close>

definition inst_B :: "instance" where
  "inst_B = \<lparr> inst_locations = [(0, 0)], inst_devices = [(3, 0)],
     inst_cloudlet_types = [\<lparr> ct_R = 10, ct_CPU = 10, ct_MEM = 10, ct_STO = 10 \<rparr>],
     inst_devices_demands = [\<lparr> d_cpu = 1, d_mem = 1, d_sto = 1 \<rparr>],
     inst_placement_cost = [[100]] \<rparr>"

section \<open>The optimizer (hybrid_ff_pso.py)\<close>

subsection \<open>The archive of nondominated solutions\<close>

record solution =
  sol_place_loc :: "int list"
  sol_assign_dev :: "int list"

record archive_entry =
  ae_place_loc :: "int list"
  ae_assign_dev :: "int list"
  ae_metrics :: metrics

text \<open>Lines 81-83 and 87-89: \<open>a\<close> dominates \<open>b\<close> on (placement_cost, latency).\<close>

definition dominates :: "metrics \<Rightarrow> metrics \<Rightarrow> bool" where
  "dominates a b \<longleftrightarrow>
     placement_cost a \<le> placement_cost b \<and> latency a \<le> latency b \<and>
     (placement_cost a < placement_cost b \<or> latency a < latency b)"

text \<open>
  Lines 76-90: the scan of the archive from index \<open>i\<close> on.  It returns the flag
  \<open>dominated\<close> and the indices to remove; a dominating entry ends the scan.
\<close>

fun archive_scan :: "metrics \<Rightarrow> archive_entry list \<Rightarrow> nat \<Rightarrow> nat list \<Rightarrow> bool \<times> nat list" where
  "archive_scan ms [] i removals = (False, removals)"
| "archive_scan ms (entry # rest) i removals =
     (if dominates (ae_metrics entry) ms then (True, removals)
      else if dominates ms (ae_metrics entry) then archive_scan ms rest (Suc i) (removals @ [i])
      else archive_scan ms rest (Suc i) removals)"

text \<open>\<open>list.pop(idx)\<close>; the indices come from \<open>enumerate\<close>, so they are in range.\<close>

definition pop_at :: "'a list \<Rightarrow> nat \<Rightarrow> 'a list" where
  "pop_at xs idx = take idx xs @ drop (Suc idx) xs"

definition nondominated_archive_update ::
  "archive_entry list \<Rightarrow> solution \<Rightarrow> metrics \<Rightarrow> archive_entry list" where
  "nondominated_archive_update archive sol ms =
     (case archive_scan ms archive 0 [] of
        (dominated, removals) \<Rightarrow>
          if \<not> dominated
          then foldl pop_at archive (rev (sort removals)) @
                 [\<lparr> ae_place_loc = sol_place_loc sol, ae_assign_dev = sol_assign_dev sol,
                    ae_metrics = ms \<rparr>]
          else archive)"

text \<open>The archive invariant: no entry dominates another one.\<close>

definition nondominated :: "archive_entry list \<Rightarrow> bool" where
  "nondominated archive \<longleftrightarrow>
     list_all (\<lambda>a. list_all (\<lambda>b. \<not> dominates (ae_metrics a) (ae_metrics b)) archive) archive"

text \<open>A sequence of calls, each with its solution and metrics.\<close>

definition archive_updates ::
  "archive_entry list \<Rightarrow> (solution \<times> metrics) list \<Rightarrow> archive_entry list" where
  "archive_updates archive calls =
     foldl (\<lambda>ar c. nondominated_archive_update ar (fst c) (snd c)) archive calls"

definition sol0 :: solution where
  "sol0 = \<lparr> sol_place_loc = [1], sol_assign_dev = [0] \<rparr>"

definition mk_metrics :: "real \<Rightarrow> real \<Rightarrow> metrics" where
  "mk_metrics c l = \<lparr> placement_cost = c, latency = l, penalty = 0, fitness = 0.4 * c + 0.6 * l \<rparr>"

definition mk_entry :: "real \<Rightarrow> real \<Rightarrow> archive_entry" where
  "mk_entry c l = \<lparr> ae_place_loc = [1], ae_assign_dev = [0], ae_metrics = mk_metrics c l \<rparr>"

section \<open>Random sources\<close>

text \<open>
  The sources draw from two generators: numpy's global one (\<open>np.random\<close>) and
  Python's (\<open>random\<close>).  Each is a stream of draws read at a position; a call reads
  one draw and moves the position.  \<open>random.random()\<close> reads \<open>py_unif\<close>, the integer
  routines reduce a raw draw into the range asked for.
\<close>

record rng =
  np_draws :: "nat \<Rightarrow> nat"
  np_pos :: nat
  py_unif :: "nat \<Rightarrow> real"
  py_draws :: "nat \<Rightarrow> nat"
  py_pos :: nat

definition np_next :: "rng \<Rightarrow> nat \<times> rng" where
  "np_next g = (np_draws g (np_pos g), g\<lparr> np_pos := Suc (np_pos g) \<rparr>)"

text \<open>\<open>np.random.randint(lo, hi)\<close>: a value of \<open>[lo, hi)\<close>, ValueError when it is empty.\<close>

definition np_randint :: "int \<Rightarrow> int \<Rightarrow> rng \<Rightarrow> error + (int \<times> rng)" where
  "np_randint lo hi g =
     (if hi \<le> lo then Inl ValueError
      else case np_next g of (r, g') \<Rightarrow> Inr (lo + int (r mod nat (hi - lo)), g'))"

text \<open>\<open>np.random.choice(xs)\<close> on a list: one of its elements, ValueError when it is empty.\<close>

definition np_choice :: "'a list \<Rightarrow> rng \<Rightarrow> error + ('a \<times> rng)" where
  "np_choice xs g =
     (if xs = [] then Inl ValueError
      else case np_next g of (r, g') \<Rightarrow> Inr (xs ! (r mod length xs), g'))"

text \<open>
  \<open>np.random.choice(n, size=k, replace=False)\<close>: \<open>k\<close> draws from the pool
  \<open>0..n-1\<close>, each taking its element out of the pool; ValueError when \<open>k > n\<close>.
\<close>

fun pick_distinct :: "nat list \<Rightarrow> nat \<Rightarrow> rng \<Rightarrow> nat list \<times> rng" where
  "pick_distinct pool 0 g = ([], g)"
| "pick_distinct pool (Suc k) g =
     (case np_next g of (r, g') \<Rightarrow>
        (case pick_distinct (pop_at pool (r mod length pool)) k g' of
           (rest, g'') \<Rightarrow> (pool ! (r mod length pool) # rest, g'')))"

definition np_choice_distinct :: "nat \<Rightarrow> int \<Rightarrow> rng \<Rightarrow> error + (nat list \<times> rng)" where
  "np_choice_distinct n k g =
     (if k < 0 \<or> int n < k then Inl ValueError else Inr (pick_distinct [0..<n] (nat k) g))"

text \<open>\<open>np.argmin\<close>: the first index of the least element, ValueError on an empty array.\<close>

fun argmin_from :: "real list \<Rightarrow> nat \<Rightarrow> nat \<Rightarrow> real \<Rightarrow> nat" where
  "argmin_from [] i best v = best"
| "argmin_from (x # xs) i best v =
     (if x < v then argmin_from xs (Suc i) i x else argmin_from xs (Suc i) best v)"

definition np_argmin :: "real list \<Rightarrow> error + nat" where
  "np_argmin xs = (case xs of [] \<Rightarrow> Inl ValueError | x # rest \<Rightarrow> Inr (argmin_from rest 1 0 x))"

subsection \<open>random_solution\<close>

text \<open>
  Lines 144-150 (and 171-175 of the repair): the locations whose placed cloudlet
  covers device \<open>e\<close>, in increasing order.
\<close>

definition covering_step ::
  "problem \<Rightarrow> int list \<Rightarrow> nat \<Rightarrow> nat \<Rightarrow> nat list \<Rightarrow> error + nat list" where
  "covering_step prob place_loc e p candidates =
     ebind (np_get place_loc p) (\<lambda>c.
       if c > 0
       then ebind (py_index (prob_cloudlet_types prob) (c - 1)) (\<lambda>t.
            ebind (np_get2 (prob_dist prob) e p) (\<lambda>d.
              if d \<le> ct_R t then Inr (candidates @ [p]) else Inr candidates))
       else Inr candidates)"

definition covering_locations :: "problem \<Rightarrow> int list \<Rightarrow> nat \<Rightarrow> error + nat list" where
  "covering_locations prob place_loc e =
     efold (covering_step prob place_loc e) [0..<prob_P prob] []"

text \<open>Lines 136-139: a random type for every chosen location.\<close>

definition place_step :: "problem \<Rightarrow> nat \<Rightarrow> int list \<times> rng \<Rightarrow> error + (int list \<times> rng)" where
  "place_step prob p s =
     (case s of (place_loc, g) \<Rightarrow>
        ebind (np_randint 0 (int (prob_T prob)) g) (\<lambda>(t, g').
          if p < length place_loc then Inr (place_loc[p := t + 1], g') else Inl IndexError))"

text \<open>Lines 143-155: the assignment of device \<open>e\<close>.\<close>

definition assign_step ::
  "problem \<Rightarrow> int list \<Rightarrow> nat \<Rightarrow> int list \<times> rng \<Rightarrow> error + (int list \<times> rng)" where
  "assign_step prob place_loc e s =
     (case s of (assign_dev, g) \<Rightarrow>
        ebind (covering_locations prob place_loc e) (\<lambda>candidates.
          if length candidates = 0
          then ebind (np_get (prob_dist prob) e) (\<lambda>row.
               ebind (np_argmin row) (\<lambda>p. Inr (assign_dev[e := int p], g)))
          else ebind (np_choice candidates g) (\<lambda>(p, g'). Inr (assign_dev[e := int p], g'))))"

definition random_solution ::
  "problem \<Rightarrow> int option \<Rightarrow> rng \<Rightarrow> error + (int list \<times> int list \<times> rng)" where
  "random_solution prob max_active_locations g =
     (let max_active = (case max_active_locations of
                          None \<Rightarrow> max 1 (int (prob_P prob div 4))
                        | Some m \<Rightarrow> m)
      in ebind (np_randint 1 (max_active + 1) g) (\<lambda>(active_count, g1).
         ebind (np_choice_distinct (prob_P prob) active_count g1) (\<lambda>(loc_indices, g2).
         ebind (efold (place_step prob) loc_indices (replicate (prob_P prob) 0, g2))
           (\<lambda>(place_loc, g3).
         ebind (efold (assign_step prob place_loc) [0..<prob_E prob]
                  (replicate (prob_E prob) 0, g3)) (\<lambda>(assign_dev, g4).
           Inr (place_loc, assign_dev, g4))))))"

text \<open>The cloudlet placed at \<open>p\<close> covers device \<open>e\<close> (no tolerance).\<close>

definition covers :: "problem \<Rightarrow> int list \<Rightarrow> nat \<Rightarrow> nat \<Rightarrow> bool" where
  "covers prob place_loc e p \<longleftrightarrow>
     place_loc ! p > 0 \<and>
     prob_dist prob ! e ! p \<le> ct_R (prob_cloudlet_types prob ! nat (place_loc ! p - 1))"

definition in_range :: "problem \<Rightarrow> int list \<Rightarrow> bool" where
  "in_range prob assign_dev \<longleftrightarrow> list_all (\<lambda>p. 0 \<le> p \<and> p < int (prob_P prob)) assign_dev"

text \<open>A generator whose every draw is 0.\<close>

definition rng0 :: rng where
  "rng0 = \<lparr> np_draws = (\<lambda>n. 0), np_pos = 0, py_unif = (\<lambda>n. 0), py_draws = (\<lambda>n. 0), py_pos = 0 \<rparr>"

subsection \<open>repair_solution\<close>

text \<open>
  The repair copies its two argument arrays and writes into the copies.  To show
  which arrays it writes, the integer arrays live in a store: an array is named by
  its address, \<open>copy()\<close> allocates a new address, an element assignment writes at
  an address.
\<close>

type_synonym addr = nat
type_synonym heap = "int list list"

definition np_copy :: "heap \<Rightarrow> addr \<Rightarrow> heap \<times> addr" where
  "np_copy h a = (h @ [h ! a], length h)"

text \<open>\<open>arr[i] = v\<close> on the array at address \<open>a\<close>.\<close>

definition arr_write :: "heap \<Rightarrow> addr \<Rightarrow> nat \<Rightarrow> int \<Rightarrow> error + heap" where
  "arr_write h a i v =
     (if i < length (h ! a) then Inr (h[a := (h ! a)[i := v]]) else Inl IndexError)"

fun emap :: "('a \<Rightarrow> error + 'b) \<Rightarrow> 'a list \<Rightarrow> error + 'b list" where
  "emap f [] = Inr []"
| "emap f (x # xs) = ebind (f x) (\<lambda>y. ebind (emap f xs) (\<lambda>ys. Inr (y # ys)))"

text \<open>
  \<open>xs.sort(key=f)\<close> computes the keys, then sorts stably by them;
  \<open>reverse=True\<close> sorts by descending key and keeps equal keys in their order.
\<close>

definition py_sort :: "('a \<Rightarrow> error + real) \<Rightarrow> bool \<Rightarrow> 'a list \<Rightarrow> error + 'a list" where
  "py_sort key reverse xs =
     ebind (emap key xs) (\<lambda>ks.
       Inr (map snd (sort_key (\<lambda>kx. if reverse then - fst kx else fst kx) (zip ks xs))))"

text \<open>Lines 169-175: the feasible locations of every device.\<close>

definition feasible_init :: "problem \<Rightarrow> int list \<Rightarrow> error + nat list list" where
  "feasible_init prob place_loc =
     efold (\<lambda>e feasible. ebind (covering_locations prob place_loc e)
                            (\<lambda>cs. Inr (feasible @ [cs])))
       [0..<prob_E prob] []"

text \<open>Lines 187-191: the first cloudlet type whose radius reaches distance \<open>d\<close>.\<close>

fun first_type :: "real \<Rightarrow> cloudlet_type list \<Rightarrow> nat \<Rightarrow> nat option" where
  "first_type d [] t_idx = None"
| "first_type d (t # ts) t_idx =
     (if d \<le> ct_R t then Some t_idx else first_type d ts (Suc t_idx))"

text \<open>
  Lines 178-198: the assignment of device \<open>e\<close> is made feasible.  \<open>pl\<close> and \<open>as\<close>
  are the addresses of the copies.
\<close>

definition fix_step ::
  "problem \<Rightarrow> addr \<Rightarrow> addr \<Rightarrow> nat \<Rightarrow> heap \<times> nat list list \<times> rng \<Rightarrow>
   error + (heap \<times> nat list list \<times> rng)" where
  "fix_step prob pl as e s =
     (case s of (h, feasible, g) \<Rightarrow>
        ebind (np_get (h ! as) e) (\<lambda>p.
          if p < 0 \<or> p \<ge> int (prob_P prob) \<or> nat p \<notin> set (feasible ! e)
          then
            if length (feasible ! e) > 0
            then ebind (np_choice (feasible ! e) g) (\<lambda>(q, g').
                 ebind (arr_write h as e (int q)) (\<lambda>h'. Inr (h', feasible, g')))
            else ebind (np_get (prob_dist prob) e) (\<lambda>row.
                 ebind (np_argmin row) (\<lambda>near_p.
                   case first_type (row ! near_p) (prob_cloudlet_types prob) 0 of
                     Some chosen \<Rightarrow>
                       ebind (arr_write h pl near_p (int chosen + 1)) (\<lambda>h1.
                       ebind (arr_write h1 as e (int near_p)) (\<lambda>h2.
                         Inr (h2, feasible[e := feasible ! e @ [near_p]], g)))
                   | None \<Rightarrow>
                       ebind (arr_write h as e (int near_p)) (\<lambda>h1. Inr (h1, feasible, g))))
          else Inr (h, feasible, g)))"

text \<open>Lines 201-206.\<close>

definition capacity_of :: "problem \<Rightarrow> int list \<Rightarrow> nat \<Rightarrow> error + (real \<times> real \<times> real)" where
  "capacity_of prob place_loc p =
     ebind (np_get place_loc p) (\<lambda>c.
       if c = 0 then Inr (0, 0, 0)
       else ebind (py_index (prob_cloudlet_types prob) (c - 1)) (\<lambda>t.
              Inr (ct_CPU t, ct_MEM t, ct_STO t)))"

definition used_sub :: "used \<Rightarrow> nat \<Rightarrow> demand \<Rightarrow> used" where
  "used_sub u p d =
     \<lparr> cpu_used = (cpu_used u)[p := cpu_used u ! p - d_cpu d],
       mem_used = (mem_used u)[p := mem_used u ! p - d_mem d],
       sto_used = (sto_used u)[p := sto_used u ! p - d_sto d] \<rparr>"

definition demand_sum :: "problem \<Rightarrow> nat \<Rightarrow> error + real" where
  "demand_sum prob e =
     ebind (np_get (prob_demands prob) e) (\<lambda>d. Inr (d_cpu d + d_mem d + d_sto d))"

text \<open>
  Lines 234-251: the devices of the overloaded location \<open>p\<close>, heaviest first, move
  to their nearest other feasible location until \<open>p\<close> is within its capacity.
\<close>

fun move_devices ::
  "problem \<Rightarrow> addr \<Rightarrow> nat list list \<Rightarrow> nat \<Rightarrow> real \<times> real \<times> real \<Rightarrow> nat list \<Rightarrow>
   heap \<times> used \<times> bool \<Rightarrow> error + (heap \<times> used \<times> bool)" where
  "move_devices prob as feasible p caps [] s = Inr s"
| "move_devices prob as feasible p caps (e # es) s =
     (case s of (h, u, moved) \<Rightarrow>
        (let alt = filter (\<lambda>pp. pp \<noteq> p) (feasible ! e) in
         if length alt = 0 then move_devices prob as feasible p caps es (h, u, moved)
         else
           ebind (py_sort (\<lambda>pp. np_get2 (prob_dist prob) e pp) False alt) (\<lambda>alt'.
           ebind (np_get alt' 0) (\<lambda>newp.
           ebind (np_get (prob_demands prob) e) (\<lambda>d.
           ebind (arr_write h as e (int newp)) (\<lambda>h'.
             (let u' = used_add (used_sub u p d) newp d in
              case caps of (cap_cpu, cap_mem, cap_sto) \<Rightarrow>
                if cpu_used u' ! p \<le> cap_cpu \<and> mem_used u' ! p \<le> cap_mem \<and>
                   sto_used u' ! p \<le> cap_sto
                then Inr (h', u', True)
                else move_devices prob as feasible p caps es (h', u', True))))))))"

text \<open>Line 231: the devices assigned to \<open>p\<close>, in increasing order.\<close>

definition assigned_devices :: "problem \<Rightarrow> int list \<Rightarrow> nat \<Rightarrow> error + nat list" where
  "assigned_devices prob assign_dev p =
     efold (\<lambda>e acc. ebind (np_get assign_dev e)
                       (\<lambda>q. Inr (if q = int p then acc @ [e] else acc)))
       [0..<prob_E prob] []"

text \<open>Lines 222-251: location \<open>p\<close> within one pass.\<close>

definition relieve_step ::
  "problem \<Rightarrow> addr \<Rightarrow> addr \<Rightarrow> nat list list \<Rightarrow> nat \<Rightarrow> heap \<times> used \<times> bool \<Rightarrow>
   error + (heap \<times> used \<times> bool)" where
  "relieve_step prob pl as feasible p s =
     (case s of (h, u, moved) \<Rightarrow>
        ebind (np_get (h ! pl) p) (\<lambda>c.
          if c = 0 then Inr (h, u, moved)
          else ebind (capacity_of prob (h ! pl) p) (\<lambda>caps.
               case caps of (cap_cpu, cap_mem, cap_sto) \<Rightarrow>
                 if cpu_used u ! p - cap_cpu > 0 \<or> mem_used u ! p - cap_mem > 0 \<or>
                    sto_used u ! p - cap_sto > 0
                 then ebind (assigned_devices prob (h ! as) p) (\<lambda>devs.
                      ebind (py_sort (demand_sum prob) True devs) (\<lambda>devs'.
                        move_devices prob as feasible p caps devs' (h, u, moved)))
                 else Inr (h, u, moved))))"

text \<open>Lines 209-253: at most \<open>n\<close> passes; a pass that moves nothing is the last.\<close>

fun capacity_passes ::
  "problem \<Rightarrow> addr \<Rightarrow> addr \<Rightarrow> nat list list \<Rightarrow> nat \<Rightarrow> heap \<Rightarrow> error + heap" where
  "capacity_passes prob pl as feasible 0 h = Inr h"
| "capacity_passes prob pl as feasible (Suc n) h =
     ebind (demand_used prob (h ! as)) (\<lambda>u.
     ebind (efold (relieve_step prob pl as feasible) [0..<prob_P prob] (h, u, False))
       (\<lambda>(h', u', moved).
          if \<not> moved then Inr h' else capacity_passes prob pl as feasible n h'))"

text \<open>
  \<open>repair_solution\<close>: the arguments are the addresses of the two arrays; the result
  is the store with the addresses of the two returned arrays.
\<close>

definition repair_solution ::
  "problem \<Rightarrow> heap \<Rightarrow> addr \<Rightarrow> addr \<Rightarrow> rng \<Rightarrow> error + (heap \<times> addr \<times> addr \<times> rng)" where
  "repair_solution prob h place_loc_arg assign_dev_arg g =
     (case np_copy h place_loc_arg of (h1, pl) \<Rightarrow>
      case np_copy h1 assign_dev_arg of (h2, as) \<Rightarrow>
        ebind (feasible_init prob (h2 ! pl)) (\<lambda>feasible.
        ebind (efold (fix_step prob pl as) [0..<prob_E prob] (h2, feasible, g))
          (\<lambda>(h3, feasible', g').
        ebind (capacity_passes prob pl as feasible' 3 h3) (\<lambda>h4.
          Inr (h4, pl, as, g')))))"

text \<open>The repair for a caller that holds the two arrays by value.\<close>

definition repair_values ::
  "problem \<Rightarrow> int list \<Rightarrow> int list \<Rightarrow> rng \<Rightarrow> error + (int list \<times> int list \<times> rng)" where
  "repair_values prob place_loc assign_dev g =
     ebind (repair_solution prob [place_loc, assign_dev] 0 1 g) (\<lambda>(h, pl, as, g').
       Inr (h ! pl, h ! as, g'))"

text \<open>
  Two locations 50 apart, two cloudlet types.  The first device is
  \<open>10 + 5e-10\<close> away from location 0, the second one sits on location 1.
\<close>

definition inst_C :: "instance" where
  "inst_C = \<lparr> inst_locations = [(0, 0), (50, 0)],
     inst_devices = [(10 + 5 / 10000000000, 0), (50, 0)],
     inst_cloudlet_types = [\<lparr> ct_R = 10, ct_CPU = 10, ct_MEM = 10, ct_STO = 10 \<rparr>,
                            \<lparr> ct_R = 100, ct_CPU = 1, ct_MEM = 1, ct_STO = 1 \<rparr>],
     inst_devices_demands = [\<lparr> d_cpu = 1, d_mem = 1, d_sto = 1 \<rparr>,
                             \<lparr> d_cpu = 1, d_mem = 1, d_sto = 1 \<rparr>],
     inst_placement_cost = [[100, 100], [200, 200]] \<rparr>"

text \<open>
  What a stretch of the repair may do to the store when \<open>pl\<close> and \<open>as\<close> are the
  addresses of its copies: no array is allocated or dropped, every other array keeps
  its content, and the placement copy keeps its length and its non-zero entries
  non-zero.
\<close>

definition heap_step :: "addr \<Rightarrow> addr \<Rightarrow> heap \<Rightarrow> heap \<Rightarrow> bool" where
  "heap_step pl as h h' \<longleftrightarrow>
     length h' = length h \<and>
     (\<forall>b. b \<noteq> pl \<longrightarrow> b \<noteq> as \<longrightarrow> h' ! b = h ! b) \<and>
     length (h' ! pl) = length (h ! pl) \<and>
     (\<forall>p < length (h ! pl). (h ! pl) ! p \<noteq> 0 \<longrightarrow> (h' ! pl) ! p \<noteq> 0)"

subsection \<open>Particles and the optimizer state\<close>

text \<open>A score is \<open>np.inf\<close> until a fitness has been recorded.\<close>

datatype score = Infinity | Finite real

text \<open>\<open>x < s\<close> for a fitness \<open>x\<close> and a score \<open>s\<close>.\<close>

definition fit_less :: "real \<Rightarrow> score \<Rightarrow> bool" where
  "fit_less x s = (case s of Infinity \<Rightarrow> True | Finite y \<Rightarrow> x < y)"

text \<open>\<open>a \<le> b\<close> on scores.\<close>

definition score_le :: "score \<Rightarrow> score \<Rightarrow> bool" where
  "score_le a b = (case b of Infinity \<Rightarrow> True
                   | Finite y \<Rightarrow> (case a of Infinity \<Rightarrow> False | Finite x \<Rightarrow> x \<le> y))"

record particle =
  p_place_loc :: "int list"
  p_assign_dev :: "int list"
  v_place :: "real list"
  v_assign :: "real list"
  pbest_place :: "int list"
  pbest_assign :: "int list"
  pbest_score :: score

definition Particle_init :: "int list \<Rightarrow> int list \<Rightarrow> particle" where
  "Particle_init place_loc assign_dev =
     \<lparr> p_place_loc = place_loc, p_assign_dev = assign_dev,
       v_place = replicate (length place_loc) 0, v_assign = replicate (length assign_dev) 0,
       pbest_place = place_loc, pbest_assign = assign_dev, pbest_score = Infinity \<rparr>"

record optimizer =
  opt_problem :: problem
  pop_size :: nat
  max_iter :: nat
  population :: "particle list"
  global_best :: "solution option"
  global_best_score :: score
  archive :: "archive_entry list"




definition evaluate_population :: "optimizer \<Rightarrow> error + metrics list" where
  "evaluate_population opt =
     emap (\<lambda>part. evaluate (opt_problem opt) (p_place_loc part) (p_assign_dev part)
                     penalty_coeff_default)
       (population opt)"

subsection \<open>Python's generator\<close>

definition py_random :: "rng \<Rightarrow> real \<times> rng" where
  "py_random g = (py_unif g (py_pos g), g\<lparr> py_pos := Suc (py_pos g) \<rparr>)"

text \<open>\<open>random.randint(a, b)\<close>: a value of \<open>[a, b]\<close>, ValueError when it is empty.\<close>

definition py_randint :: "int \<Rightarrow> int \<Rightarrow> rng \<Rightarrow> error + (int \<times> rng)" where
  "py_randint a b g =
     (if b < a then Inl ValueError
      else Inr (a + int (py_draws g (py_pos g) mod nat (b - a + 1)),
                g\<lparr> py_pos := Suc (py_pos g) \<rparr>))"

text \<open>\<open>xs[i] = v\<close> on an array held by value.\<close>

definition np_set :: "'a list \<Rightarrow> nat \<Rightarrow> 'a \<Rightarrow> error + 'a list" where
  "np_set xs i v = (if i < length xs then Inr (xs[i := v]) else Inl IndexError)"

subsection \<open>The move operators\<close>

text \<open>
  Lines 119-125 and 162-168: an unplaced location gets a random type, a placed one is
  cleared or gets a random type.
\<close>

definition toggle_place :: "problem \<Rightarrow> int list \<Rightarrow> nat \<Rightarrow> rng \<Rightarrow> error + (int list \<times> rng)" where
  "toggle_place prob pl p g =
     ebind (np_get pl p) (\<lambda>c.
       if c = 0
       then ebind (py_randint 1 (int (prob_T prob)) g) (\<lambda>(t, g').
            ebind (np_set pl p t) (\<lambda>pl'. Inr (pl', g')))
       else (case py_random g of (r, g') \<Rightarrow>
               if r < 0.5 then ebind (np_set pl p 0) (\<lambda>pl'. Inr (pl', g'))
               else ebind (py_randint 1 (int (prob_T prob)) g') (\<lambda>(t, g'').
                    ebind (np_set pl p t) (\<lambda>pl'. Inr (pl', g'')))))"

text \<open>\<open>if random.random() < prob: xs[i] = src[i]\<close>.\<close>

definition adopt :: "real \<Rightarrow> int list \<Rightarrow> nat \<Rightarrow> int list \<times> rng \<Rightarrow> error + (int list \<times> rng)" where
  "adopt prob_thr src i s =
     (case s of (xs, g) \<Rightarrow>
        (case py_random g of (r, g') \<Rightarrow>
           if r < prob_thr
           then ebind (np_get src i) (\<lambda>v. ebind (np_set xs i v) (\<lambda>xs'. Inr (xs', g')))
           else Inr (xs, g')))"

text \<open>Lines 111-125: location \<open>p\<close> of the swarm move.\<close>

definition pso_place_step ::
  "problem \<Rightarrow> int list \<Rightarrow> int list \<Rightarrow> nat \<Rightarrow> int list \<times> rng \<Rightarrow> error + (int list \<times> rng)" where
  "pso_place_step prob pbest g_place p s =
     ebind (adopt 0.3 pbest p s) (\<lambda>s1.
     ebind (adopt 0.2 g_place p s1) (\<lambda>(pl, g).
       (case py_random g of (r, g') \<Rightarrow>
          if r < 0.05 then toggle_place prob pl p g' else Inr (pl, g'))))"

text \<open>\<open>if random.random() < prob: assign_dev[e] = random.randint(0, P - 1)\<close>.\<close>

definition jump :: "problem \<Rightarrow> real \<Rightarrow> nat \<Rightarrow> int list \<times> rng \<Rightarrow> error + (int list \<times> rng)" where
  "jump prob prob_thr e s =
     (case s of (a, g) \<Rightarrow>
        (case py_random g of (r, g') \<Rightarrow>
           if r < prob_thr
           then ebind (py_randint 0 (int (prob_P prob) - 1) g') (\<lambda>(q, g'').
                ebind (np_set a e q) (\<lambda>a'. Inr (a', g'')))
           else Inr (a, g')))"

text \<open>Lines 128-135: device \<open>e\<close> of the swarm move.\<close>

definition pso_assign_step ::
  "problem \<Rightarrow> int list \<Rightarrow> int list \<Rightarrow> nat \<Rightarrow> int list \<times> rng \<Rightarrow> error + (int list \<times> rng)" where
  "pso_assign_step prob pbest g_assign e s =
     ebind (adopt 0.35 pbest e s) (\<lambda>s1.
     ebind (adopt 0.25 g_assign e s1) (\<lambda>s2.
       jump prob 0.02 e s2))"

definition local_pso_move ::
  "problem \<Rightarrow> solution option \<Rightarrow> particle \<Rightarrow> rng \<Rightarrow> error + (particle \<times> rng)" where
  "local_pso_move prob gbest part g =
     (let g_place = (case gbest of Some b \<Rightarrow> sol_place_loc b | None \<Rightarrow> pbest_place part);
          g_assign = (case gbest of Some b \<Rightarrow> sol_assign_dev b | None \<Rightarrow> pbest_assign part)
      in ebind (efold (pso_place_step prob (pbest_place part) g_place) [0..<prob_P prob]
                  (p_place_loc part, g)) (\<lambda>(pl, g1).
         ebind (efold (pso_assign_step prob (pbest_assign part) g_assign) [0..<prob_E prob]
                  (p_assign_dev part, g1)) (\<lambda>(a, g2).
           Inr (part\<lparr> p_place_loc := pl, p_assign_dev := a \<rparr>, g2))))"

text \<open>
  Lines 146-156: one slot of the firefly move.  A draw is taken only where the two
  particles differ.
\<close>

definition firefly_step ::
  "real \<Rightarrow> int list \<Rightarrow> nat \<Rightarrow> int list \<times> rng \<Rightarrow> error + (int list \<times> rng)" where
  "firefly_step prob_thr brighter i s =
     (case s of (xs, g) \<Rightarrow>
        ebind (np_get brighter i) (\<lambda>b.
        ebind (np_get xs i) (\<lambda>c.
          if b \<noteq> c
          then (case py_random g of (r, g') \<Rightarrow>
                  if r < prob_thr then ebind (np_set xs i b) (\<lambda>xs'. Inr (xs', g'))
                  else Inr (xs, g'))
          else Inr (xs, g))))"

definition firefly_move ::
  "problem \<Rightarrow> particle \<Rightarrow> particle \<Rightarrow> rng \<Rightarrow> error + (particle \<times> rng)" where
  "firefly_move prob part brighter_part g =
     ebind (efold (firefly_step 0.5 (p_place_loc brighter_part)) [0..<prob_P prob]
              (p_place_loc part, g)) (\<lambda>(pl, g1).
     ebind (efold (firefly_step 0.4 (p_assign_dev brighter_part)) [0..<prob_E prob]
              (p_assign_dev part, g1)) (\<lambda>(a, g2).
       Inr (part\<lparr> p_place_loc := pl, p_assign_dev := a \<rparr>, g2)))"

text \<open>Lines 158-172, with the default mutation rates.\<close>

definition mutate_place_step ::
  "problem \<Rightarrow> real \<Rightarrow> nat \<Rightarrow> int list \<times> rng \<Rightarrow> error + (int list \<times> rng)" where
  "mutate_place_step prob pm_place p s =
     (case s of (pl, g) \<Rightarrow>
        (case py_random g of (r, g') \<Rightarrow>
           if r < pm_place then toggle_place prob pl p g' else Inr (pl, g')))"

definition mutate :: "problem \<Rightarrow> particle \<Rightarrow> rng \<Rightarrow> error + (particle \<times> rng)" where
  "mutate prob part g =
     ebind (efold (mutate_place_step prob 0.02) [0..<prob_P prob] (p_place_loc part, g))
       (\<lambda>(pl, g1).
     ebind (efold (jump prob 0.03) [0..<prob_E prob] (p_assign_dev part, g1)) (\<lambda>(a, g2).
       Inr (part\<lparr> p_place_loc := pl, p_assign_dev := a \<rparr>, g2)))"

subsection \<open>run\<close>

text \<open>Lines 180-192: particle \<open>i\<close> updates its best, the global best and the archive.\<close>

definition update_bests :: "metrics list \<Rightarrow> nat \<Rightarrow> optimizer \<Rightarrow> error + optimizer" where
  "update_bests evals i opt =
     ebind (np_get (population opt) i) (\<lambda>part.
     ebind (np_get evals i) (\<lambda>ms.
       (let part' = (if fit_less (fitness ms) (pbest_score part)
                     then part\<lparr> pbest_score := Finite (fitness ms),
                               pbest_place := p_place_loc part,
                               pbest_assign := p_assign_dev part \<rparr>
                     else part);
            opt1 = opt\<lparr> population := (population opt)[i := part'] \<rparr>;
            opt2 = (if fit_less (fitness ms) (global_best_score opt1)
                    then opt1\<lparr> global_best_score := Finite (fitness ms),
                               global_best := Some \<lparr> sol_place_loc = p_place_loc part,
                                                     sol_assign_dev = p_assign_dev part \<rparr> \<rparr>
                    else opt1)
        in Inr (opt2\<lparr> archive := nondominated_archive_update (archive opt2)
                          \<lparr> sol_place_loc = p_place_loc part, sol_assign_dev = p_assign_dev part \<rparr>
                          ms \<rparr>))))"

text \<open>Lines 199-203: the particle ranked \<open>ii\<close> meets the particle ranked \<open>jj\<close>.\<close>

definition firefly_pair ::
  "problem \<Rightarrow> metrics list \<Rightarrow> nat list \<Rightarrow> nat \<Rightarrow> nat \<Rightarrow> particle list \<times> rng \<Rightarrow>
   error + (particle list \<times> rng)" where
  "firefly_pair prob evals sorted_idx ii jj s =
     (case s of (pop, g) \<Rightarrow>
        ebind (np_get sorted_idx ii) (\<lambda>i.
        ebind (np_get sorted_idx jj) (\<lambda>j.
        ebind (np_get evals j) (\<lambda>mj.
        ebind (np_get evals i) (\<lambda>mi.
          if fitness mj < fitness mi
          then ebind (np_get pop i) (\<lambda>part.
               ebind (np_get pop j) (\<lambda>brighter_part.
               ebind (firefly_move prob part brighter_part g) (\<lambda>(part', g').
                 Inr (pop[i := part'], g'))))
          else Inr (pop, g))))))"

text \<open>Lines 195-203: the ranking and the firefly interactions.\<close>

definition firefly_phase ::
  "problem \<Rightarrow> metrics list \<Rightarrow> particle list \<times> rng \<Rightarrow> error + (particle list \<times> rng)" where
  "firefly_phase prob evals s =
     (let n = length (fst s);
          sorted_idx = sort_key (\<lambda>i. fitness (evals ! i)) [0..<n]
      in efold (\<lambda>ii. efold (firefly_pair prob evals sorted_idx ii) [0..<ii]) [0..<n] s)"

text \<open>Lines 206-210: swarm move, mutation and repair of particle \<open>i\<close>.\<close>

definition move_particle ::
  "problem \<Rightarrow> solution option \<Rightarrow> nat \<Rightarrow> particle list \<times> rng \<Rightarrow> error + (particle list \<times> rng)" where
  "move_particle prob gbest i s =
     (case s of (pop, g) \<Rightarrow>
        ebind (np_get pop i) (\<lambda>part.
        ebind (local_pso_move prob gbest part g) (\<lambda>(part1, g1).
        ebind (mutate prob part1 g1) (\<lambda>(part2, g2).
        ebind (repair_values prob (p_place_loc part2) (p_assign_dev part2) g2) (\<lambda>(pl, a, g3).
          Inr (pop[i := part2\<lparr> p_place_loc := pl, p_assign_dev := a \<rparr>], g3))))))"

text \<open>Lines 176-213: one generation; the third component is \<open>best_history\<close>.\<close>

definition generation ::
  "nat \<Rightarrow> optimizer \<times> rng \<times> score list \<Rightarrow> error + (optimizer \<times> rng \<times> score list)" where
  "generation it s =
     (case s of (opt, g, best_history) \<Rightarrow>
        ebind (evaluate_population opt) (\<lambda>evals.
        ebind (efold (update_bests evals) [0..<length (population opt)] opt) (\<lambda>opt1.
        ebind (firefly_phase (opt_problem opt1) evals (population opt1, g)) (\<lambda>s2.
        ebind (efold (move_particle (opt_problem opt1) (global_best opt1))
                 [0..<length (fst s2)] s2) (\<lambda>(pop3, g3).
          Inr (opt1\<lparr> population := pop3 \<rparr>, g3,
               best_history @ [global_best_score opt1]))))))"

record run_result =
  res_archive :: "archive_entry list"
  res_best_score :: score
  res_best_solution :: "solution option"
  res_history :: "score list"

definition run :: "optimizer \<Rightarrow> rng \<Rightarrow> error + (run_result \<times> optimizer \<times> rng)" where
  "run opt g =
     ebind (efold generation [0..<max_iter opt] (opt, g, [])) (\<lambda>(opt', g', best_history).
       Inr (\<lparr> res_archive = archive opt', res_best_score = global_best_score opt',
              res_best_solution = global_best opt', res_history = best_history \<rparr>, opt', g'))"

text \<open>
  The invariant of the generation loop: the history never increases and the current
  global best score is below every entry of it.
\<close>

definition history_inv :: "optimizer \<times> rng \<times> score list \<Rightarrow> bool" where
  "history_inv s \<longleftrightarrow>
     (case s of (opt, g, h) \<Rightarrow>
        sorted_wrt (\<lambda>a b. score_le b a) h \<and> list_all (\<lambda>x. score_le (global_best_score opt) x) h)"

text \<open>A generator whose \<open>random.random()\<close> always returns 0.9.\<close>

definition rng9 :: rng where
  "rng9 = \<lparr> np_draws = (\<lambda>n. 0), np_pos = 0, py_unif = (\<lambda>n. 0.9), py_draws = (\<lambda>n. 0), py_pos = 0 \<rparr>"

text \<open>One particle on \<open>inst_B\<close> with nothing placed, two generations.\<close>

definition opt_W :: optimizer where
  "opt_W = \<lparr> opt_problem = CloudletProblem_init inst_B, pop_size = 1, max_iter = 2,
     population = [Particle_init [0] [0]], global_best = None, global_best_score = Infinity,
     archive = [] \<rparr>"


text \<open>
  Reference quantities for the firefly move: the number of slots below \<open>n\<close> where the
  brighter array \<open>b\<close> and the array \<open>xs\<close> differ, and the content of slot \<open>i\<close> after
  the loop, which reads the draw of \<open>random.random()\<close> that belongs to the slot.
\<close>

definition ndiff :: "int list \<Rightarrow> int list \<Rightarrow> nat \<Rightarrow> nat" where
  "ndiff b xs n = length (filter (\<lambda>i. b ! i \<noteq> xs ! i) [0..<n])"

definition ff_slot :: "real \<Rightarrow> int list \<Rightarrow> int list \<Rightarrow> rng \<Rightarrow> nat \<Rightarrow> nat \<Rightarrow> int" where
  "ff_slot thr b xs g start i =
     (if b ! i \<noteq> xs ! i \<and> py_unif g (start + ndiff b xs i) < thr then b ! i else xs ! i)"

text \<open>The pairs of ranks in the order of the two nested loops.\<close>

definition rank_pairs :: "nat \<Rightarrow> (nat \<times> nat) list" where
  "rank_pairs n = concat (map (\<lambda>ii. map (Pair ii) [0..<ii]) [0..<n])"

text \<open>A generator whose second value of \<open>random.random()\<close> is 0.9, the others 0.1.\<close>

definition rng_F :: rng where
  "rng_F = \<lparr> np_draws = (\<lambda>n. 0), np_pos = 0, py_unif = (\<lambda>n. if n = 1 then 0.9 else 0.1),
     py_draws = (\<lambda>n. 0), py_pos = 0 \<rparr>"

text \<open>Two particles on \<open>inst_C\<close>; the second one has the lower fitness.\<close>

definition pop_F :: "particle list" where
  "pop_F = [Particle_init [1, 0] [0, 0], Particle_init [1, 2] [1, 1]]"

definition evals_F :: "metrics list" where
  "evals_F = [\<lparr> placement_cost = 100, latency = 60, penalty = 1, fitness = 1000076 \<rparr>,
              \<lparr> placement_cost = 300, latency = 40, penalty = 0, fitness = 144 \<rparr>]"

text \<open>
  Feasible without any tolerance: every device is assigned in range to a location whose
  cloudlet covers it, and no placed location carries more than its capacity.
\<close>

definition strictly_feasible :: "problem \<Rightarrow> int list \<Rightarrow> int list \<Rightarrow> bool" where
  "strictly_feasible prob place_loc assign_dev \<longleftrightarrow>
     (\<forall>e < prob_E prob. 0 \<le> assign_dev ! e \<and> assign_dev ! e < int (prob_P prob) \<and>
        covers prob place_loc e (nat (assign_dev ! e))) \<and>
     (\<forall>p < prob_P prob. place_loc ! p \<noteq> 0 \<longrightarrow>
        assigned_sum prob assign_dev d_cpu (prob_E prob) p
          \<le> ct_CPU (prob_cloudlet_types prob ! nat (place_loc ! p - 1)) \<and>
        assigned_sum prob assign_dev d_mem (prob_E prob) p
          \<le> ct_MEM (prob_cloudlet_types prob ! nat (place_loc ! p - 1)) \<and>
        assigned_sum prob assign_dev d_sto (prob_E prob) p
          \<le> ct_STO (prob_cloudlet_types prob ! nat (place_loc ! p - 1)))"

section \<open>Properties of the exception monad and of loops\<close>



lemma ebind_Inr: "ebind (Inr x) f = f x" by (simp add: ebind_def)

lemma ebind_Inl: "ebind (Inl e) f = Inl e" by (simp add: ebind_def)

lemma ebind_eq_Inr: "ebind m f = Inr y \<longleftrightarrow> (\<exists>x. m = Inr x \<and> f x = Inr y)"
  by (cases m) (simp_all add: ebind_def)

lemma efold_append: "efold f (xs @ ys) s = ebind (efold f xs s) (efold f ys)"
proof (induction xs arbitrary: s)
  case Nil
  show ?case by (simp add: ebind_Inr)
next
  case (Cons x xs)
  show ?case by (cases "f x s") (simp_all add: ebind_Inr ebind_Inl Cons)
qed

lemma efold_snoc: "efold f (xs @ [x]) s = ebind (efold f xs s) (f x)"
proof -
  have "efold f [x] = f x"
    by (rule ext) (simp add: ebind_eq_Inr ebind_def split: sum.splits)
  then show ?thesis by (simp add: efold_append)
qed

lemma efold_upt_Suc: "efold f [0..<Suc n] s = ebind (efold f [0..<n] s) (f n)"
  by (simp add: efold_snoc)

lemma np_get_Inr: "i < length xs \<Longrightarrow> np_get xs i = Inr (xs ! i)"
  by (simp add: np_get_def)

lemma np_get2_Inr: "i < length m \<Longrightarrow> j < length (m ! i) \<Longrightarrow> np_get2 m i j = Inr (m ! i ! j)"
  by (simp add: np_get2_def np_get_Inr ebind_Inr)

section \<open>Properties of evaluate\<close>

lemma dist_ok_init: "dist_ok (CloudletProblem_init inst)"
  by (simp add: dist_ok_def CloudletProblem_init_def list_all_iff)

lemma dist_get: "dist_ok prob \<Longrightarrow> e < prob_E prob \<Longrightarrow> p < prob_P prob \<Longrightarrow>
  np_get2 (prob_dist prob) e p = Inr (prob_dist prob ! e ! p)"
  by (simp add: dist_ok_def np_get2_Inr list_all_length)

lemma latency_step_val:
  "dist_ok prob \<Longrightarrow> e < prob_E prob \<Longrightarrow> e < length assign_dev \<Longrightarrow>
   latency_step prob assign_dev e lat = Inr (lat + lat_term prob assign_dev e)"
  by (auto simp add: latency_step_def np_get_Inr ebind_Inr lat_term_def dist_get)

lemma latency_loop:
  "dist_ok prob \<Longrightarrow> n \<le> prob_E prob \<Longrightarrow> n \<le> length assign_dev \<Longrightarrow>
   efold (latency_step prob assign_dev) [0..<n] lat =
     Inr (lat + sum_list (map (lat_term prob assign_dev) [0..<n]))"
proof (induction n)
  case 0
  show ?case by simp
next
  case (Suc n)
  then show ?case
    by (simp add: efold_snoc ebind_Inr latency_step_val del: upt_Suc add: upt_Suc_append)
qed

lemma efold_total:
  "(\<And>x s. x \<in> set xs \<Longrightarrow> \<exists>s'. f x s = Inr s') \<Longrightarrow> \<exists>s'. efold f xs s = Inr s'"
proof (induction xs arbitrary: s)
  case Nil
  show ?case by simp
next
  case (Cons x xs)
  from Cons.prems[of x s] obtain s1 where s1: "f x s = Inr s1" by auto
  from Cons.IH[of s1] Cons.prems obtain s2 where "efold f xs s1 = Inr s2" by auto
  with s1 show ?case by (simp add: ebind_Inr)
qed

lemma efold_inv:
  "efold f xs s = Inr s' \<Longrightarrow> Q s \<Longrightarrow>
   (\<And>x a b. x \<in> set xs \<Longrightarrow> Q a \<Longrightarrow> f x a = Inr b \<Longrightarrow> Q b) \<Longrightarrow> Q s'"
proof (induction xs arbitrary: s)
  case Nil
  then show ?case by simp
next
  case (Cons x xs)
  from Cons.prems(1) obtain s1 where s1: "f x s = Inr s1" and r: "efold f xs s1 = Inr s'"
    by (auto simp: ebind_eq_Inr)
  have "Q s1" using Cons.prems(2,3) s1 by auto
  then show ?case using Cons.IH[OF r] Cons.prems(3) by auto
qed

lemma assigned_sum_0: "assigned_sum prob a sel 0 p = 0"
  by (simp add: assigned_sum_def)

lemma assigned_sum_Suc:
  "assigned_sum prob a sel (Suc n) p =
     assigned_sum prob a sel n p + (if a ! n = int p then sel (prob_demands prob ! n) else 0)"
  by (simp add: assigned_sum_def)

lemma used_is_zeros: "used_is prob a 0 (used_zeros prob)"
  by (simp add: used_is_def used_zeros_def assigned_sum_0)

lemma used_step_is:
  assumes "used_is prob a n u" "n < length a" "n < length (prob_demands prob)"
  shows "\<exists>u'. used_step prob a n u = Inr u' \<and> used_is prob a (Suc n) u'"
proof (cases "0 \<le> a ! n \<and> a ! n < int (prob_P prob)")
  case True
  then have q: "nat (a ! n) < prob_P prob" by linarith
  have s: "used_step prob a n u = Inr (used_add u (nat (a ! n)) (prob_demands prob ! n))"
    using True assms(2,3) by (simp add: used_step_def np_get_Inr ebind_Inr)
  have "used_is prob a (Suc n) (used_add u (nat (a ! n)) (prob_demands prob ! n))"
    using assms(1) True q
    by (auto simp: used_is_def used_add_def assigned_sum_Suc nth_list_update)
  with s show ?thesis by simp
next
  case False
  then have s: "used_step prob a n u = Inr u"
    using assms(2) by (auto simp: used_step_def np_get_Inr ebind_Inr)
  have "\<And>p. p < prob_P prob \<Longrightarrow> a ! n \<noteq> int p" using False by auto
  then have "used_is prob a (Suc n) u"
    using assms(1) by (simp add: used_is_def assigned_sum_Suc)
  with s show ?thesis by simp
qed

lemma used_loop:
  "n \<le> length a \<Longrightarrow> n \<le> length (prob_demands prob) \<Longrightarrow>
   \<exists>u. efold (used_step prob a) [0..<n] (used_zeros prob) = Inr u \<and> used_is prob a n u"
proof (induction n)
  case 0
  show ?case by (simp add: used_is_zeros)
next
  case (Suc n)
  then obtain u where u: "efold (used_step prob a) [0..<n] (used_zeros prob) = Inr u"
    and ui: "used_is prob a n u" by auto
  from used_step_is[OF ui] Suc.prems obtain u' where
    "used_step prob a n u = Inr u'" "used_is prob a (Suc n) u'" by auto
  with u show ?case by (simp add: efold_snoc ebind_Inr)
qed

lemma demand_used_is:
  "demands_ok prob \<Longrightarrow> length a = prob_E prob \<Longrightarrow>
   \<exists>u. demand_used prob a = Inr u \<and> used_is prob a (prob_E prob) u"
  using used_loop[of "prob_E prob" a prob] by (simp add: demand_used_def demands_ok_def)

lemma init_ok:
  "types_ok (CloudletProblem_init inst)"
  "valid_instance inst \<Longrightarrow> cost_ok (CloudletProblem_init inst)"
  "valid_instance inst \<Longrightarrow> demands_ok (CloudletProblem_init inst)"
  by (simp_all add: types_ok_def cost_ok_def demands_ok_def valid_instance_def CloudletProblem_init_def)

lemma valid_placement_nth:
  "valid_placement prob pl \<Longrightarrow> p < prob_P prob \<Longrightarrow> 0 \<le> pl ! p \<and> pl ! p \<le> int (prob_T prob)"
  by (simp add: valid_placement_def list_all_length)

lemma py_index_type:
  "types_ok prob \<Longrightarrow> 0 < c \<Longrightarrow> c \<le> int (prob_T prob) \<Longrightarrow>
   py_index (prob_cloudlet_types prob) (c - 1) = Inr (prob_cloudlet_types prob ! nat (c - 1))"
  by (simp add: py_index_def types_ok_def)

lemma placement_step_total:
  assumes "cost_ok prob" "valid_placement prob pl" "p < prob_P prob"
  shows "\<exists>r. placement_step prob pl p acc = Inr r"
proof -
  have l: "p < length pl" using assms by (simp add: valid_placement_def)
  have b: "0 \<le> pl ! p \<and> pl ! p \<le> int (prob_T prob)" using valid_placement_nth[OF assms(2,3)] .
  show ?thesis
  proof (cases "pl ! p > 0")
    case True
    then have i: "nat (pl ! p - 1) < length (prob_placement_cost prob)"
      using b assms(1) by (simp add: cost_ok_def)
    then have "p < length (prob_placement_cost prob ! nat (pl ! p - 1))"
      using assms(1,3) by (simp add: cost_ok_def list_all_length)
    with i True l show ?thesis
      by (simp add: placement_step_def np_get_Inr ebind_Inr np_get2_Inr)
  next
    case False
    with l show ?thesis by (simp add: placement_step_def np_get_Inr ebind_Inr)
  qed
qed

lemma coverage_step_total:
  assumes "types_ok prob" "dist_ok prob" "valid_placement prob pl" "e < prob_E prob"
    "e < length a"
  shows "\<exists>r. coverage_step prob pl a e pen = Inr r"
proof (cases "a ! e < 0 \<or> a ! e \<ge> int (prob_P prob)")
  case True
  with assms(5) show ?thesis by (auto simp: coverage_step_def np_get_Inr ebind_Inr)
next
  case False
  then have q: "nat (a ! e) < prob_P prob" by linarith
  then have l: "nat (a ! e) < length pl" using assms(3) by (simp add: valid_placement_def)
  from valid_placement_nth[OF assms(3) q]
  have b: "0 \<le> pl ! nat (a ! e) \<and> pl ! nat (a ! e) \<le> int (prob_T prob)" .
  show ?thesis
  proof (cases "pl ! nat (a ! e) = 0")
    case True
    with False l assms(5) show ?thesis
      by (simp add: coverage_step_def np_get_Inr ebind_Inr)
  next
    case nz: False
    then have "0 < pl ! nat (a ! e)" using b by simp
    from py_index_type[OF assms(1) this] b False nz l assms(5) dist_get[OF assms(2,4) q]
    show ?thesis
      by (simp add: coverage_step_def np_get_Inr ebind_Inr)
  qed
qed

lemma capacity_step_total:
  assumes "types_ok prob" "valid_placement prob pl" "p < prob_P prob"
  shows "\<exists>r. capacity_step prob pl u p pen = Inr r"
proof -
  have l: "p < length pl" using assms by (simp add: valid_placement_def)
  have b: "0 \<le> pl ! p \<and> pl ! p \<le> int (prob_T prob)" using valid_placement_nth[OF assms(2,3)] .
  show ?thesis
  proof (cases "pl ! p = 0")
    case True
    with l show ?thesis by (simp add: capacity_step_def np_get_Inr ebind_Inr)
  next
    case False
    then have "0 < pl ! p" using b by simp
    from py_index_type[OF assms(1) this] b False l show ?thesis
      by (simp add: capacity_step_def np_get_Inr ebind_Inr)
  qed
qed

lemma evaluate_general:
  assumes "types_ok prob" "dist_ok prob" "cost_ok prob" "demands_ok prob"
    "valid_placement prob pl" "length a = prob_E prob"
  shows "\<exists>m. evaluate prob pl a coeff = Inr m \<and>
           fitness m = 0.4 * placement_cost m + 0.6 * latency m + penalty m * coeff \<and>
           latency m = sum_list (map (lat_term prob a) [0..<prob_E prob])"
proof -
  obtain pt where pt: "efold (placement_step prob pl) [0..<prob_P prob] 0 = Inr pt"
    using efold_total[of "[0..<prob_P prob]" "placement_step prob pl" 0]
      placement_step_total[OF assms(3,5)] by auto
  have lat: "efold (latency_step prob a) [0..<prob_E prob] 0 =
      Inr (0 + sum_list (map (lat_term prob a) [0..<prob_E prob]))"
    using assms(2,6) by (intro latency_loop) simp_all
  obtain p1 where p1: "efold (coverage_step prob pl a) [0..<prob_E prob] 0 = Inr p1"
    using efold_total[of "[0..<prob_E prob]" "coverage_step prob pl a" 0]
      coverage_step_total[OF assms(1,2,5)] assms(6) by auto
  obtain u where u: "demand_used prob a = Inr u"
    using demand_used_is[OF assms(4,6)] by auto
  obtain p2 where p2: "efold (capacity_step prob pl u) [0..<prob_P prob] p1 = Inr p2"
    using efold_total[of "[0..<prob_P prob]" "capacity_step prob pl u" p1]
      capacity_step_total[OF assms(1,5)] by auto
  show ?thesis
    by (simp add: evaluate_def pt lat p1 u p2 ebind_Inr)
qed

lemma placement_loop_zero:
  "n \<le> k \<Longrightarrow> efold (placement_step prob (replicate k 0)) [0..<n] acc = Inr acc"
proof (induction n)
  case 0
  show ?case by simp
next
  case (Suc n)
  then show ?case
    by (simp add: efold_snoc ebind_Inr placement_step_def np_get_Inr)
qed

lemma coverage_step_zero:
  "e < length a \<Longrightarrow>
   coverage_step prob (replicate (prob_P prob) 0) a e pen = Inr (pen + 100000)"
  by (auto simp: coverage_step_def np_get_Inr ebind_Inr)

lemma coverage_loop_zero:
  "n \<le> length a \<Longrightarrow>
   efold (coverage_step prob (replicate (prob_P prob) 0) a) [0..<n] pen =
     Inr (pen + 100000 * real n)"
proof (induction n)
  case 0
  show ?case by simp
next
  case (Suc n)
  then show ?case
    by (simp add: efold_snoc ebind_Inr coverage_step_zero algebra_simps)
qed

lemma capacity_step_zero:
  "used_is prob a (prob_E prob) u \<Longrightarrow> p < prob_P prob \<Longrightarrow>
   capacity_step prob (replicate (prob_P prob) 0) u p pen =
     Inr (pen + (if loaded prob a p then 1000000 else 0))"
  by (simp add: capacity_step_def np_get_Inr ebind_Inr used_is_def loaded_def)

lemma capacity_loop_zero:
  "used_is prob a (prob_E prob) u \<Longrightarrow> n \<le> prob_P prob \<Longrightarrow>
   efold (capacity_step prob (replicate (prob_P prob) 0) u) [0..<n] pen =
     Inr (pen + 1000000 * real (length (filter (loaded prob a) [0..<n])))"
proof (induction n)
  case 0
  show ?case by simp
next
  case (Suc n)
  then show ?case
    by (simp add: efold_snoc ebind_Inr capacity_step_zero algebra_simps)
qed

lemma evaluate_zero_general:
  assumes "dist_ok prob" "demands_ok prob" "length a = prob_E prob"
  shows "evaluate prob (replicate (prob_P prob) 0) a coeff =
     Inr \<lparr> placement_cost = 0,
           latency = sum_list (map (lat_term prob a) [0..<prob_E prob]),
           penalty = 100000 * real (prob_E prob) +
                     1000000 * real (length (filter (loaded prob a) [0..<prob_P prob])),
           fitness = 0.4 * 0 + 0.6 * sum_list (map (lat_term prob a) [0..<prob_E prob]) +
                     (100000 * real (prob_E prob) +
                      1000000 * real (length (filter (loaded prob a) [0..<prob_P prob]))) * coeff \<rparr>"
proof -
  have lat: "efold (latency_step prob a) [0..<prob_E prob] 0 =
      Inr (0 + sum_list (map (lat_term prob a) [0..<prob_E prob]))"
    using assms(1,3) by (intro latency_loop) simp_all
  obtain u where u: "demand_used prob a = Inr u" and ui: "used_is prob a (prob_E prob) u"
    using demand_used_is[OF assms(2,3)] by auto
  show ?thesis
    using assms(3)
    by (simp add: evaluate_def placement_loop_zero lat coverage_loop_zero u
        capacity_loop_zero[OF ui] ebind_Inr)
qed

lemma norm2_same_y: "norm2 (x1, y) (x2, y) = \<bar>x1 - x2\<bar>"
  by (simp add: norm2_def)

lemma prob_B: "CloudletProblem_init inst_B =
   \<lparr> prob_locations = [(0, 0)], prob_devices = [(3, 0)],
     prob_cloudlet_types = [\<lparr> ct_R = 10, ct_CPU = 10, ct_MEM = 10, ct_STO = 10 \<rparr>],
     prob_demands = [\<lparr> d_cpu = 1, d_mem = 1, d_sto = 1 \<rparr>],
     prob_placement_cost = [[100]], prob_P = 1, prob_E = 1, prob_T = 1, prob_dist = [[3]] \<rparr>"
  by (simp add: CloudletProblem_init_def inst_B_def norm2_same_y)

lemma np_get_eq_Inr: "np_get xs i = Inr x \<longleftrightarrow> i < length xs \<and> x = xs ! i"
  by (auto simp: np_get_def)

lemma np_get2_eq_Inr:
  "np_get2 m i j = Inr x \<longleftrightarrow> i < length m \<and> j < length (m ! i) \<and> x = m ! i ! j"
  by (auto simp: np_get2_def ebind_eq_Inr np_get_eq_Inr)

lemma latency_step_Inr:
  "latency_step prob a e lat = Inr r \<Longrightarrow> r = lat + lat_term prob a e"
  by (auto simp: latency_step_def lat_term_def ebind_eq_Inr np_get_eq_Inr np_get2_eq_Inr
      split: if_splits)

lemma latency_loop_Inr:
  "efold (latency_step prob a) [0..<n] lat = Inr r \<Longrightarrow>
   r = lat + sum_list (map (lat_term prob a) [0..<n])"
proof (induction n arbitrary: r)
  case 0
  then show ?case by simp
next
  case (Suc n)
  from Suc.prems obtain r1 where r1: "efold (latency_step prob a) [0..<n] lat = Inr r1"
    and st: "latency_step prob a n r1 = Inr r"
    by (auto simp: efold_snoc ebind_eq_Inr)
  from Suc.IH[OF r1] latency_step_Inr[OF st] show ?case by simp
qed

text \<open>
  C2: under the default configuration a returned fitness is
  0.4 * placement_cost + 0.6 * latency + penalty * 1e6, and the latency is the sum over
  the devices of the distance to the assigned location, an assignment index outside
  [0,P) counting as the constant 1e6; on a well-formed instance, a placement with
  entries in 0..T and an assignment of length E, evaluate does return.
\<close>

theorem evaluate_fitness_formula:
  "(evaluate prob place_loc assign_dev penalty_coeff_default = Inr m \<longrightarrow>
      fitness m = 0.4 * placement_cost m + 0.6 * latency m + penalty m * 1000000 \<and>
      latency m = sum_list (map (lat_term prob assign_dev) [0..<prob_E prob])) \<and>
   (valid_instance inst \<and> valid_placement (CloudletProblem_init inst) pl \<and>
    length a = prob_E (CloudletProblem_init inst) \<longrightarrow>
      (\<exists>m'. evaluate (CloudletProblem_init inst) pl a penalty_coeff_default = Inr m'))"
proof (intro conjI impI)
  assume ev: "evaluate prob place_loc assign_dev penalty_coeff_default = Inr m"
  then obtain pt lat pen where
    lat: "efold (latency_step prob assign_dev) [0..<prob_E prob] 0 = Inr lat" and
    m: "m = \<lparr> placement_cost = pt, latency = lat, penalty = pen,
             fitness = 0.4 * pt + 0.6 * lat + pen * penalty_coeff_default \<rparr>"
    by (auto simp: evaluate_def ebind_eq_Inr)
  from m show "fitness m = 0.4 * placement_cost m + 0.6 * latency m + penalty m * 1000000"
    by (simp add: penalty_coeff_default_def)
  from latency_loop_Inr[OF lat] m
  show "latency m = sum_list (map (lat_term prob assign_dev) [0..<prob_E prob])" by simp
next
  assume v: "valid_instance inst \<and> valid_placement (CloudletProblem_init inst) pl \<and>
    length a = prob_E (CloudletProblem_init inst)"
  from v have vi: "valid_instance inst" by simp
  from evaluate_general[OF init_ok(1) dist_ok_init init_ok(2)[OF vi] init_ok(3)[OF vi]] v
  show "\<exists>m'. evaluate (CloudletProblem_init inst) pl a penalty_coeff_default = Inr m'"
    by blast
qed

lemma valid_B: "valid_instance inst_B"
  by (simp add: valid_instance_def inst_B_def)

lemmas eval_defs = evaluate_def demand_used_def placement_step_def latency_step_def coverage_step_def
     used_step_def used_zeros_def used_add_def capacity_step_def over_pen_def np_get_def np_get2_def
     py_index_def ebind_def penalty_coeff_default_def

theorem evaluate_fitness_formula_witness:
  "evaluate (CloudletProblem_init inst_B) [1] [0] penalty_coeff_default =
     Inr \<lparr> placement_cost = 100, latency = 3, penalty = 0, fitness = 41.8 \<rparr> \<and>
   fitness \<lparr> placement_cost = 100, latency = 3, penalty = 0, fitness = 41.8 \<rparr> =
     0.4 * 100 + 0.6 * 3 + 0 * 1000000 \<and>
   latency \<lparr> placement_cost = 100, latency = 3, penalty = 0, fitness = 41.8 \<rparr> =
     sum_list (map (lat_term (CloudletProblem_init inst_B) [0]) [0..<prob_E (CloudletProblem_init inst_B)]) \<and>
   valid_instance inst_B \<and> valid_placement (CloudletProblem_init inst_B) [1] \<and>
   length [0::int] = prob_E (CloudletProblem_init inst_B)"
proof -
  have e: "evaluate (CloudletProblem_init inst_B) [1] [0] penalty_coeff_default =
     Inr \<lparr> placement_cost = 100, latency = 3, penalty = 0, fitness = 41.8 \<rparr>"
    by (simp add: prob_B eval_defs)
  have v: "valid_placement (CloudletProblem_init inst_B) [1]"
    by (simp add: prob_B valid_placement_def)
  have l: "length [0::int] = prob_E (CloudletProblem_init inst_B)" by (simp add: prob_B)
  from evaluate_fitness_formula[of "CloudletProblem_init inst_B" "[1]" "[0]"
      "\<lparr> placement_cost = 100, latency = 3, penalty = 0, fitness = 41.8 \<rparr>" inst_B "[1]" "[0]"] e
  have "fitness \<lparr> placement_cost = 100, latency = 3, penalty = 0, fitness = 41.8 \<rparr> =
     0.4 * 100 + 0.6 * 3 + 0 * 1000000 \<and>
   latency \<lparr> placement_cost = 100, latency = 3, penalty = 0, fitness = 41.8 \<rparr> =
     sum_list (map (lat_term (CloudletProblem_init inst_B) [0]) [0..<prob_E (CloudletProblem_init inst_B)])"
    by simp
  with e v l valid_B show ?thesis by blast
qed

text \<open>
  C1 (as stated) fails: one device with a positive demand assigned to the only, unplaced,
  location is charged 1e5 for coverage and 1e6 for the demand at an unplaced location.
\<close>

theorem evaluate_nothing_placed_counterexample:
  "evaluate (CloudletProblem_init inst_B) (replicate (prob_P (CloudletProblem_init inst_B)) 0) [0]
      penalty_coeff_default =
     Inr \<lparr> placement_cost = 0, latency = 3, penalty = 1100000, fitness = 1100000000001.8 \<rparr> \<and>
   (1100000 :: real) \<noteq> 100000 * real (prob_E (CloudletProblem_init inst_B))"
  by (simp add: prob_B eval_defs)

text \<open>
  C1 (amended): with nothing placed, on an instance with one demand record per device and
  an assignment of length E, evaluate returns placement_cost 0, the latency of C2, and the
  penalty 1e5 * E plus 1e6 for every location that carries a positive demand.
\<close>

theorem evaluate_nothing_placed:
  assumes "length (inst_devices_demands inst) = length (inst_devices inst)"
    and "length assign_dev = length (inst_devices inst)"
    and "prob = CloudletProblem_init inst"
  shows "evaluate prob (replicate (prob_P prob) 0) assign_dev coeff =
     Inr \<lparr> placement_cost = 0,
           latency = sum_list (map (lat_term prob assign_dev) [0..<prob_E prob]),
           penalty = 100000 * real (prob_E prob) +
                     1000000 * real (length (filter (loaded prob assign_dev) [0..<prob_P prob])),
           fitness = 0.4 * 0 + 0.6 * sum_list (map (lat_term prob assign_dev) [0..<prob_E prob]) +
                     (100000 * real (prob_E prob) +
                      1000000 * real (length (filter (loaded prob assign_dev) [0..<prob_P prob]))) * coeff \<rparr>"
proof -
  have d: "demands_ok prob" using assms(1,3)
    by (simp add: demands_ok_def CloudletProblem_init_def)
  have l: "length assign_dev = prob_E prob" using assms(2,3)
    by (simp add: CloudletProblem_init_def)
  have "dist_ok prob" using assms(3) dist_ok_init by simp
  from evaluate_zero_general[OF this d l] show ?thesis .
qed

theorem evaluate_nothing_placed_witness:
  "length (inst_devices_demands inst_B) = length (inst_devices inst_B) \<and>
   length [7::int] = length (inst_devices inst_B) \<and>
   evaluate (CloudletProblem_init inst_B) [0] [7] penalty_coeff_default =
     Inr \<lparr> placement_cost = 0, latency = 1000000, penalty = 100000,
           fitness = 100000600000 \<rparr>"
proof -
  have a: "length (inst_devices_demands inst_B) = length (inst_devices inst_B)"
    and b: "length [7::int] = length (inst_devices inst_B)"
    by (simp_all add: inst_B_def)
  from evaluate_nothing_placed[OF a b refl, of penalty_coeff_default]
  have "evaluate (CloudletProblem_init inst_B) [0] [7] penalty_coeff_default =
     Inr \<lparr> placement_cost = 0, latency = 1000000, penalty = 100000,
           fitness = 100000600000 \<rparr>"
    by (simp add: prob_B lat_term_def loaded_def assigned_sum_def penalty_coeff_default_def)
  with a b show ?thesis by simp
qed

section \<open>The archive invariant\<close>

lemma archive_scan_dominated:
  "archive_scan ms ar i rs = (True, rs') \<Longrightarrow> \<exists>a \<in> set ar. dominates (ae_metrics a) ms"
  by (induction ar arbitrary: i rs) (auto split: if_splits)

lemma dominated_indices_Cons:
  "filter (\<lambda>k. D ((a # ar) ! k)) [0..<Suc (length ar)] =
     (if D a then [0] else []) @ map Suc (filter (\<lambda>k. D (ar ! k)) [0..<length ar])"
proof -
  have "[0..<Suc (length ar)] = 0 # map Suc [0..<length ar]"
    by (simp add: upt_conv_Cons map_Suc_upt del: upt_Suc)
  then show ?thesis by (simp add: filter_map o_def del: upt_Suc)
qed

lemma archive_scan_clear:
  "archive_scan ms ar i rs = (False, rs') \<Longrightarrow>
   (\<forall>a \<in> set ar. \<not> dominates (ae_metrics a) ms) \<and>
   rs' = rs @ map (\<lambda>k. i + k) (filter (\<lambda>k. dominates ms (ae_metrics (ar ! k))) [0..<length ar])"
proof (induction ar arbitrary: i rs)
  case Nil
  then show ?case by simp
next
  case (Cons a ar)
  note shift = dominated_indices_Cons[of "\<lambda>e. dominates ms (ae_metrics e)" a ar]
  from Cons.prems have nd: "\<not> dominates (ae_metrics a) ms" by (auto split: if_splits)
  show ?case
  proof (cases "dominates ms (ae_metrics a)")
    case True
    with nd Cons.prems have "archive_scan ms ar (Suc i) (rs @ [i]) = (False, rs')" by simp
    from Cons.IH[OF this] nd True show ?thesis by (simp add: shift o_def del: upt_Suc)
  next
    case False
    with nd Cons.prems have "archive_scan ms ar (Suc i) rs = (False, rs')" by simp
    from Cons.IH[OF this] nd False show ?thesis by (simp add: shift o_def del: upt_Suc)
  qed
qed

lemma pop_at_append: "i < length xs \<Longrightarrow> pop_at (xs @ ys) i = pop_at xs i @ ys"
  by (simp add: pop_at_def)

lemma pop_at_last: "pop_at (xs @ [x]) (length xs) = xs"
  by (simp add: pop_at_def)

lemma length_pop_at: "i < length xs \<Longrightarrow> length (pop_at xs i) = length xs - 1"
  by (simp add: pop_at_def)

lemma foldl_pop_at_append:
  "sorted_wrt (>) js \<Longrightarrow> \<forall>j \<in> set js. j < length xs \<Longrightarrow>
   foldl pop_at (xs @ ys) js = foldl pop_at xs js @ ys"
proof (induction js arbitrary: xs)
  case Nil
  show ?case by simp
next
  case (Cons j js)
  then have j: "j < length xs" by simp
  have "\<forall>k \<in> set js. k < length (pop_at xs j)"
    using Cons.prems j by (auto simp: length_pop_at)
  with Cons.IH[of "pop_at xs j"] Cons.prems(1) j show ?case
    by (simp add: pop_at_append)
qed

lemma sorted_wrt_desc_indices:
  "sorted_wrt (>) (rev (filter Q [0..<n]))"
  by (simp add: sorted_wrt_rev sorted_wrt_filter del: upt_Suc) 

lemma foldl_pop_at_filter:
  "foldl pop_at ar (rev (filter (\<lambda>k. D (ar ! k)) [0..<length ar])) = filter (\<lambda>a. \<not> D a) ar"
proof (induction ar rule: rev_induct)
  case Nil
  show ?case by simp
next
  case (snoc x xs)
  have idx: "filter (\<lambda>k. D ((xs @ [x]) ! k)) [0..<length xs] = filter (\<lambda>k. D (xs ! k)) [0..<length xs]"
    by (rule filter_cong) (simp_all add: nth_append)
  show ?case
  proof (cases "D x")
    case True
    then show ?thesis using snoc by (simp add: idx pop_at_last)
  next
    case False
    have "foldl pop_at (xs @ [x]) (rev (filter (\<lambda>k. D (xs ! k)) [0..<length xs])) =
        foldl pop_at xs (rev (filter (\<lambda>k. D (xs ! k)) [0..<length xs])) @ [x]"
      by (rule foldl_pop_at_append[OF sorted_wrt_desc_indices]) simp
    with False snoc show ?thesis by (simp add: idx)
  qed
qed

lemma archive_update_not_dominated:
  assumes "archive_scan ms ar 0 [] = (False, rs)"
  shows "nondominated_archive_update ar sol ms =
     filter (\<lambda>a. \<not> dominates ms (ae_metrics a)) ar @
       [\<lparr> ae_place_loc = sol_place_loc sol, ae_assign_dev = sol_assign_dev sol, ae_metrics = ms \<rparr>]"
proof -
  from archive_scan_clear[OF assms]
  have rs: "rs = filter (\<lambda>k. dominates ms (ae_metrics (ar ! k))) [0..<length ar]" by simp
  have "sorted rs" unfolding rs by (rule sorted_filter[where f = "\<lambda>x. x", simplified]) simp
  then have "sort rs = rs" by (simp add: sort_key_id_if_sorted)
  then show ?thesis
    using assms foldl_pop_at_filter[of ar "\<lambda>a. dominates ms (ae_metrics a)"]
    by (simp add: nondominated_archive_update_def rs)
qed

lemma archive_update_dominated:
  "archive_scan ms ar 0 [] = (True, rs) \<Longrightarrow> nondominated_archive_update ar sol ms = ar"
  by (simp add: nondominated_archive_update_def)

lemma not_dominates_self: "\<not> dominates m m"
  by (simp add: dominates_def)

lemma nondominated_update:
  assumes "nondominated ar"
  shows "nondominated (nondominated_archive_update ar sol ms)"
proof (cases "archive_scan ms ar 0 []")
  case (Pair d rs)
  show ?thesis
  proof (cases d)
    case True
    with Pair assms show ?thesis by (simp add: archive_update_dominated)
  next
    case False
    with Pair have sc: "archive_scan ms ar 0 [] = (False, rs)" by simp
    from archive_scan_clear[OF sc] have nd: "\<forall>a \<in> set ar. \<not> dominates (ae_metrics a) ms" by simp
    show ?thesis
      using assms nd
      by (auto simp: archive_update_not_dominated[OF sc] nondominated_def list_all_iff
          not_dominates_self)
  qed
qed

lemma nondominated_updates:
  "nondominated ar \<Longrightarrow> nondominated (archive_updates ar calls)"
  unfolding archive_updates_def
  by (induction calls arbitrary: ar) (simp_all add: nondominated_update)


text \<open>
  C3: the archive update preserves the invariant.  If no entry of the archive dominates
  another one (both objectives \<open>\<le>\<close>, one of them \<open><\<close>), then after any sequence of
  calls of nondominated_archive_update no entry dominates another one.
\<close>

theorem archive_update_preserves_nondominated:
  assumes "nondominated ar"
  shows "nondominated (archive_updates ar calls) \<and>
    (\<forall>a \<in> set (archive_updates ar calls). \<forall>b \<in> set (archive_updates ar calls).
       \<not> (placement_cost (ae_metrics a) \<le> placement_cost (ae_metrics b) \<and>
          latency (ae_metrics a) \<le> latency (ae_metrics b) \<and>
          (placement_cost (ae_metrics a) < placement_cost (ae_metrics b) \<or>
           latency (ae_metrics a) < latency (ae_metrics b))))"
proof -
  have n: "nondominated (archive_updates ar calls)"
    using assms by (rule nondominated_updates)
  then show ?thesis
    unfolding nondominated_def list_all_iff dominates_def by blast
qed

theorem archive_update_preserves_nondominated_witness:
  "nondominated [] \<and>
   archive_updates [] [(sol0, mk_metrics 10 5), (sol0, mk_metrics 5 10), (sol0, mk_metrics 7 7),
       (sol0, mk_metrics 6 6), (sol0, mk_metrics 8 8)] =
     [mk_entry 10 5, mk_entry 5 10, mk_entry 6 6] \<and>
   nondominated [mk_entry 10 5, mk_entry 5 10, mk_entry 6 6]"
proof -
  have e: "nondominated []" by (simp add: nondominated_def)
  have r: "archive_updates [] [(sol0, mk_metrics 10 5), (sol0, mk_metrics 5 10), (sol0, mk_metrics 7 7),
       (sol0, mk_metrics 6 6), (sol0, mk_metrics 8 8)] =
     [mk_entry 10 5, mk_entry 5 10, mk_entry 6 6]"
    by (simp add: archive_updates_def nondominated_archive_update_def dominates_def pop_at_def
        mk_metrics_def mk_entry_def sol0_def)
  from archive_update_preserves_nondominated[OF e,
      of "[(sol0, mk_metrics 10 5), (sol0, mk_metrics 5 10), (sol0, mk_metrics 7 7),
       (sol0, mk_metrics 6 6), (sol0, mk_metrics 8 8)]"]
  have "nondominated [mk_entry 10 5, mk_entry 5 10, mk_entry 6 6]"
    unfolding r by (rule conjunct1)
  with e r show ?thesis by simp
qed

section \<open>Properties of random_solution\<close>

lemma np_randint_range:
  assumes "lo < hi"
  shows "\<exists>v g'. np_randint lo hi g = Inr (v, g') \<and> lo \<le> v \<and> v < hi"
proof -
  have p: "0 < nat (hi - lo)" using assms by simp
  have "x mod nat (hi - lo) < nat (hi - lo)" for x using p by simp
  then have "int (x mod nat (hi - lo)) < int (nat (hi - lo))" for x by (simp only: of_nat_less_iff)
  moreover have "int (nat (hi - lo)) = hi - lo" using assms by simp
  ultimately have "int (x mod nat (hi - lo)) < hi - lo" for x by simp
  then have "lo + int (x mod nat (hi - lo)) < hi" for x by (simp add: less_diff_eq add.commute)
  then show ?thesis using assms
    by (simp add: np_randint_def np_next_def)
qed

lemma length_pop_at_le: "length (pop_at xs i) = (if i < length xs then length xs - 1 else length xs)"
  by (simp add: pop_at_def)

lemma set_pop_at_subset: "set (pop_at xs i) \<subseteq> set xs"
  by (auto simp: pop_at_def dest: in_set_takeD in_set_dropD)

lemma distinct_pop_at_nth:
  assumes "distinct xs" "i < length xs"
  shows "distinct (pop_at xs i) \<and> xs ! i \<notin> set (pop_at xs i)"
proof -
  have "distinct (take i xs @ xs ! i # drop (Suc i) xs)"
    using assms by (simp add: id_take_nth_drop[symmetric])
  then show ?thesis by (auto simp: pop_at_def)
qed

lemma pick_distinct_props:
  "k \<le> length pool \<Longrightarrow> distinct pool \<Longrightarrow>
   length (fst (pick_distinct pool k g)) = k \<and> distinct (fst (pick_distinct pool k g)) \<and>
   set (fst (pick_distinct pool k g)) \<subseteq> set pool"
proof (induction k arbitrary: pool g)
  case 0
  show ?case by simp
next
  case (Suc k)
  obtain r g' where n: "np_next g = (r, g')" by (cases "np_next g")
  let ?i = "r mod length pool"
  have "0 < length pool" using Suc.prems(1) by linarith
  then have i: "?i < length pool" by simp
  obtain rest g'' where pd: "pick_distinct (pop_at pool ?i) k g' = (rest, g'')"
    by (cases "pick_distinct (pop_at pool ?i) k g'")
  have d: "distinct (pop_at pool ?i)" "pool ! ?i \<notin> set (pop_at pool ?i)"
    using distinct_pop_at_nth[OF Suc.prems(2) i] by simp_all
  have "k \<le> length (pop_at pool ?i)" using Suc.prems i by (simp add: length_pop_at_le)
  from Suc.IH[OF this d(1), of g'] pd
  have ih: "length rest = k" "distinct rest" "set rest \<subseteq> set (pop_at pool ?i)" by simp_all
  have "pick_distinct pool (Suc k) g = (pool ! ?i # rest, g'')" by (simp add: n pd)
  moreover have "pool ! ?i \<notin> set rest" using ih(3) d(2) by auto
  moreover have "set rest \<subseteq> set pool" by (rule subset_trans[OF ih(3) set_pop_at_subset])
  moreover have "pool ! ?i \<in> set pool" using i by simp
  ultimately show ?case using ih(1,2) by simp
qed


lemma efold_total_inv:
  "Q s \<Longrightarrow> (\<And>x a. x \<in> set xs \<Longrightarrow> Q a \<Longrightarrow> \<exists>b. f x a = Inr b \<and> Q b) \<Longrightarrow>
   \<exists>s'. efold f xs s = Inr s' \<and> Q s'"
proof (induction xs arbitrary: s)
  case Nil
  then show ?case by simp
next
  case (Cons x xs)
  from Cons.prems(2)[of x s] Cons.prems(1) obtain s1 where s1: "f x s = Inr s1" "Q s1" by auto
  from Cons.IH[OF s1(2)] Cons.prems(2) obtain s2 where "efold f xs s1 = Inr s2" "Q s2"
    by (metis list.set_intros(2))
  with s1 show ?case by (simp add: ebind_Inr)
qed

lemma place_step_props:
  assumes "1 \<le> prob_T prob" "p < length pl"
  shows "\<exists>t g'. place_step prob p (pl, g) = Inr (pl[p := t], g') \<and> 1 \<le> t \<and> t \<le> int (prob_T prob)"
proof -
  from np_randint_range[of 0 "int (prob_T prob)" g] assms(1)
  obtain v g' where v: "np_randint 0 (int (prob_T prob)) g = Inr (v, g')" "0 \<le> v" "v < int (prob_T prob)"
    by auto
  then have "place_step prob p (pl, g) = Inr (pl[p := v + 1], g')"
    using assms(2) by (simp add: place_step_def ebind_Inr)
  with v show ?thesis by (intro exI[of _ "v + 1"] exI[of _ g']) simp
qed

lemma place_loop:
  assumes "1 \<le> prob_T prob"
  shows "\<forall>p \<in> set ls. p < length pl \<Longrightarrow>
    \<exists>pl' g'. efold (place_step prob) ls (pl, g) = Inr (pl', g') \<and> length pl' = length pl \<and>
      (\<forall>p < length pl. (p \<in> set ls \<longrightarrow> 1 \<le> pl' ! p \<and> pl' ! p \<le> int (prob_T prob)) \<and>
                        (p \<notin> set ls \<longrightarrow> pl' ! p = pl ! p))"
proof (induction ls arbitrary: pl g)
  case Nil
  show ?case by simp
next
  case (Cons q ls)
  then have q: "q < length pl" by simp
  from place_step_props[OF assms q, of g] obtain t g1 where
    st: "place_step prob q (pl, g) = Inr (pl[q := t], g1)" and t: "1 \<le> t" "t \<le> int (prob_T prob)"
    by auto
  have "\<forall>p \<in> set ls. p < length (pl[q := t])" using Cons.prems by simp
  from Cons.IH[OF this, of g1] obtain pl' g' where
    r: "efold (place_step prob) ls (pl[q := t], g1) = Inr (pl', g')" and
    l: "length pl' = length pl" and
    i: "\<forall>p < length pl. (p \<in> set ls \<longrightarrow> 1 \<le> pl' ! p \<and> pl' ! p \<le> int (prob_T prob)) \<and>
                        (p \<notin> set ls \<longrightarrow> pl' ! p = pl[q := t] ! p)"
    by auto
  have "efold (place_step prob) (q # ls) (pl, g) = Inr (pl', g')"
    by (simp add: st r ebind_Inr)
  moreover have "\<forall>p < length pl. (p \<in> set (q # ls) \<longrightarrow> 1 \<le> pl' ! p \<and> pl' ! p \<le> int (prob_T prob)) \<and>
                        (p \<notin> set (q # ls) \<longrightarrow> pl' ! p = pl ! p)"
  proof (intro allI impI)
    fix p assume p: "p < length pl"
    show "(p \<in> set (q # ls) \<longrightarrow> 1 \<le> pl' ! p \<and> pl' ! p \<le> int (prob_T prob)) \<and>
          (p \<notin> set (q # ls) \<longrightarrow> pl' ! p = pl ! p)"
      using i[rule_format, OF p] t p by (cases "p = q"; cases "p \<in> set ls") auto
  qed
  ultimately show ?case using l by blast
qed

lemma nonzero_count:
  assumes "length pl' = n" "distinct ls" "\<forall>p \<in> set ls. p < n"
    "\<forall>p < n. (p \<in> set ls \<longrightarrow> pl' ! p \<noteq> (0::int)) \<and> (p \<notin> set ls \<longrightarrow> pl' ! p = 0)"
  shows "length (filter (\<lambda>c. c \<noteq> 0) pl') = length ls"
proof -
  have "{i. i < length pl' \<and> pl' ! i \<noteq> 0} = set ls"
    using assms(1,3,4) by auto
  then show ?thesis
    using assms(2) by (simp add: length_filter_conv_card distinct_card)
qed

lemma covering_step_val:
  assumes "types_ok prob" "dist_ok prob" "valid_placement prob pl" "e < prob_E prob" "p < prob_P prob"
  shows "covering_step prob pl e p cs = Inr (if covers prob pl e p then cs @ [p] else cs)"
proof -
  have l: "p < length pl" using assms by (simp add: valid_placement_def)
  have b: "0 \<le> pl ! p \<and> pl ! p \<le> int (prob_T prob)" using valid_placement_nth[OF assms(3,5)] .
  show ?thesis
  proof (cases "pl ! p > 0")
    case True
    from py_index_type[OF assms(1) True] b dist_get[OF assms(2,4,5)] True l show ?thesis
      by (simp add: covering_step_def np_get_Inr ebind_Inr covers_def)
  next
    case False
    with l show ?thesis by (simp add: covering_step_def np_get_Inr ebind_Inr covers_def)
  qed
qed

lemma covering_loop:
  assumes "types_ok prob" "dist_ok prob" "valid_placement prob pl" "e < prob_E prob"
  shows "n \<le> prob_P prob \<Longrightarrow>
    efold (covering_step prob pl e) [0..<n] cs = Inr (cs @ filter (covers prob pl e) [0..<n])"
proof (induction n)
  case 0
  show ?case by simp
next
  case (Suc n)
  then have "n < prob_P prob" by simp
  from covering_step_val[OF assms this] Suc show ?case
    by (simp add: efold_snoc ebind_Inr)
qed

lemma covering_locations_val:
  assumes "types_ok prob" "dist_ok prob" "valid_placement prob pl" "e < prob_E prob"
  shows "covering_locations prob pl e = Inr (filter (covers prob pl e) [0..<prob_P prob])"
  using covering_loop[OF assms, of "prob_P prob" "[]"] by (simp add: covering_locations_def)

lemma argmin_from_bound:
  "argmin_from xs i best v = best \<or> (i \<le> argmin_from xs i best v \<and> argmin_from xs i best v < i + length xs)"
proof (induction xs arbitrary: i best v)
  case Nil
  show ?case by simp
next
  case (Cons x xs)
  show ?case
  proof (cases "x < v")
    case True
    with Cons[of "Suc i" i x] show ?thesis by auto
  next
    case False
    with Cons[of "Suc i" best v] show ?thesis by auto
  qed
qed

lemma np_argmin_bound: "np_argmin xs = Inr p \<Longrightarrow> p < length xs"
proof (cases xs)
  case Nil
  assume "np_argmin xs = Inr p"
  with Nil show ?thesis by (simp add: np_argmin_def)
next
  case (Cons x rest)
  assume "np_argmin xs = Inr p"
  with Cons have "p = argmin_from rest 1 0 x" by (simp add: np_argmin_def)
  with argmin_from_bound[of rest 1 0 x] Cons show ?thesis by auto
qed

lemma np_argmin_total: "xs \<noteq> [] \<Longrightarrow> \<exists>p. np_argmin xs = Inr p"
  by (cases xs) (simp_all add: np_argmin_def)

lemma np_choice_mem: "xs \<noteq> [] \<Longrightarrow> \<exists>x g'. np_choice xs g = Inr (x, g') \<and> x \<in> set xs"
  by (simp add: np_choice_def np_next_def)

lemma in_range_update:
  "in_range prob a \<Longrightarrow> p < prob_P prob \<Longrightarrow> in_range prob (a[e := int p])"
proof (cases "e < length a")
  case True
  assume "in_range prob a" "p < prob_P prob"
  with True show ?thesis
    by (simp add: in_range_def list_all_length nth_list_update)
next
  case False
  assume "in_range prob a"
  with False show ?thesis by (simp add: list_update_beyond)
qed

lemma assign_step_props:
  assumes "types_ok prob" "dist_ok prob" "valid_placement prob pl" "e < prob_E prob"
    "1 \<le> prob_P prob" "in_range prob a"
  shows "\<exists>a' g'. assign_step prob pl e (a, g) = Inr (a', g') \<and> length a' = length a \<and> in_range prob a'"
proof (cases "filter (covers prob pl e) [0..<prob_P prob] = []")
  case True
  have row: "np_get (prob_dist prob) e = Inr (prob_dist prob ! e)"
    using assms(2,4) by (simp add: np_get_Inr dist_ok_def)
  have len: "length (prob_dist prob ! e) = prob_P prob"
    using assms(2,4) by (simp add: dist_ok_def list_all_length)
  then have "prob_dist prob ! e \<noteq> []" using assms(5) by auto
  from np_argmin_total[OF this] obtain p where p: "np_argmin (prob_dist prob ! e) = Inr p" by auto
  from np_argmin_bound[OF p] len have pb: "p < prob_P prob" by simp
  have "assign_step prob pl e (a, g) = Inr (a[e := int p], g)"
    by (simp add: assign_step_def covering_locations_val[OF assms(1-4)] True row p ebind_Inr)
  with in_range_update[OF assms(6) pb] show ?thesis by simp
next
  case False
  from np_choice_mem[OF False, of g] obtain p g' where
    c: "np_choice (filter (covers prob pl e) [0..<prob_P prob]) g = Inr (p, g')" and
    m: "p \<in> set (filter (covers prob pl e) [0..<prob_P prob])" by auto
  from m have pb: "p < prob_P prob" by simp
  have "assign_step prob pl e (a, g) = Inr (a[e := int p], g')"
    using False by (simp add: assign_step_def covering_locations_val[OF assms(1-4)] c ebind_Inr)
  with in_range_update[OF assms(6) pb] show ?thesis by simp
qed

lemma assign_loop:
  assumes "types_ok prob" "dist_ok prob" "valid_placement prob pl" "1 \<le> prob_P prob"
    "in_range prob a" "length a = k"
  shows "\<exists>a' g'. efold (assign_step prob pl) [0..<prob_E prob] (a, g) = Inr (a', g') \<and>
           length a' = k \<and> in_range prob a'"
proof -
  let ?Q = "\<lambda>s :: int list \<times> rng. length (fst s) = k \<and> in_range prob (fst s)"
  have "\<exists>s'. efold (assign_step prob pl) [0..<prob_E prob] (a, g) = Inr s' \<and> ?Q s'"
  proof (rule efold_total_inv)
    show "?Q (a, g)" using assms(5,6) by simp
  next
    fix x and s :: "int list \<times> rng"
    assume x: "x \<in> set [0..<prob_E prob]" and q: "?Q s"
    obtain a1 g1 where s: "s = (a1, g1)" by (cases s)
    from x have "x < prob_E prob" by simp
    from assign_step_props[OF assms(1,2,3) this assms(4), of a1 g1] q s
    show "\<exists>b. assign_step prob pl x s = Inr b \<and> ?Q b" by auto
  qed
  then show ?thesis by auto
qed


lemma random_solution_general:
  assumes "types_ok prob" "dist_ok prob" "1 \<le> prob_P prob" "1 \<le> prob_T prob"
  shows "\<exists>place_loc assign_dev g'.
     random_solution prob None g = Inr (place_loc, assign_dev, g') \<and>
     valid_placement prob place_loc \<and>
     1 \<le> length (filter (\<lambda>c. c \<noteq> 0) place_loc) \<and>
     length (filter (\<lambda>c. c \<noteq> 0) place_loc) \<le> max 1 (prob_P prob div 4) \<and>
     length assign_dev = prob_E prob \<and> in_range prob assign_dev"
proof -
  let ?m = "max 1 (int (prob_P prob div 4))"
  have "1 < ?m + 1" by simp
  from np_randint_range[OF this, of g] obtain ac g1 where
    ac: "np_randint 1 (?m + 1) g = Inr (ac, g1)" "1 \<le> ac" "ac \<le> ?m" by auto
  have mP: "?m \<le> int (prob_P prob)" using assms(3) by simp
  obtain ls g2 where pd: "pick_distinct [0..<prob_P prob] (nat ac) g1 = (ls, g2)"
    by (cases "pick_distinct [0..<prob_P prob] (nat ac) g1")
  have cd: "np_choice_distinct (prob_P prob) ac g1 = Inr (ls, g2)"
    using ac mP pd by (simp add: np_choice_distinct_def)
  have "nat ac \<le> length [0..<prob_P prob]" using ac mP by simp
  from pick_distinct_props[OF this, of g1] pd
  have ls: "length ls = nat ac" "distinct ls" "\<forall>p \<in> set ls. p < prob_P prob" by auto
  have "\<forall>p \<in> set ls. p < length (replicate (prob_P prob) (0::int))" using ls(3) by simp
  from place_loop[OF assms(4) this, of g2] obtain pl g3 where
    pl: "efold (place_step prob) ls (replicate (prob_P prob) 0, g2) = Inr (pl, g3)" and
    len: "length pl = prob_P prob" and
    ent: "\<forall>p < prob_P prob. (p \<in> set ls \<longrightarrow> 1 \<le> pl ! p \<and> pl ! p \<le> int (prob_T prob)) \<and>
                        (p \<notin> set ls \<longrightarrow> pl ! p = 0)"
    by auto
  have vp: "valid_placement prob pl"
    unfolding valid_placement_def list_all_length using len ent by (auto simp: len)
  have "length (filter (\<lambda>c. c \<noteq> 0) pl) = length ls"
    by (rule nonzero_count[OF len ls(2,3)]) (use ent in auto)
  then have cnt: "length (filter (\<lambda>c. c \<noteq> 0) pl) = nat ac" using ls(1) by simp
  have ir: "in_range prob (replicate (prob_E prob) 0)"
    using assms(3) by (simp add: in_range_def list_all_length)
  from assign_loop[OF assms(1,2) vp assms(3) ir, of "prob_E prob" g3] obtain a g4 where
    a: "efold (assign_step prob pl) [0..<prob_E prob] (replicate (prob_E prob) 0, g3) = Inr (a, g4)"
    "length a = prob_E prob" "in_range prob a" by auto
  have "random_solution prob None g = Inr (pl, a, g4)"
    by (simp add: random_solution_def ac(1) cd pl a(1) ebind_Inr)
  moreover have "1 \<le> nat ac" using ac(2) by simp
  moreover have "nat ac \<le> max 1 (prob_P prob div 4)" using ac(2,3) by auto
  ultimately show ?thesis using vp cnt a(2,3) by auto
qed

text \<open>
  C6: on an instance with at least one location and one cloudlet type random_solution
  returns; the placement has length P and entries in 0..T, between 1 and max(1, P div 4)
  of them are not zero, and the assignment has length E and entries in [0,P).
\<close>

theorem random_solution_in_range:
  assumes "prob = CloudletProblem_init inst" "1 \<le> prob_P prob" "1 \<le> prob_T prob"
  shows "\<exists>place_loc assign_dev g'.
     random_solution prob None g = Inr (place_loc, assign_dev, g') \<and>
     length place_loc = prob_P prob \<and>
     list_all (\<lambda>c. 0 \<le> c \<and> c \<le> int (prob_T prob)) place_loc \<and>
     1 \<le> length (filter (\<lambda>c. c \<noteq> 0) place_loc) \<and>
     length (filter (\<lambda>c. c \<noteq> 0) place_loc) \<le> max 1 (prob_P prob div 4) \<and>
     length assign_dev = prob_E prob \<and>
     list_all (\<lambda>p. 0 \<le> p \<and> p < int (prob_P prob)) assign_dev"
proof -
  have "types_ok prob" "dist_ok prob" using assms(1) init_ok(1) dist_ok_init by simp_all
  from random_solution_general[OF this assms(2,3), of g] show ?thesis
    unfolding valid_placement_def in_range_def by blast
qed


lemmas rng_defs = np_randint_def np_choice_def np_choice_distinct_def np_next_def np_argmin_def

lemmas random_solution_defs = random_solution_def place_step_def assign_step_def
  covering_locations_def covering_step_def

theorem random_solution_in_range_witness:
  "1 \<le> prob_P (CloudletProblem_init inst_B) \<and> 1 \<le> prob_T (CloudletProblem_init inst_B) \<and>
   random_solution (CloudletProblem_init inst_B) None rng0 = Inr ([1], [0], rng0\<lparr> np_pos := 4 \<rparr>) \<and>
   length [1 :: int] = prob_P (CloudletProblem_init inst_B) \<and>
   list_all (\<lambda>c. 0 \<le> c \<and> c \<le> int (prob_T (CloudletProblem_init inst_B))) [1] \<and>
   1 \<le> length (filter (\<lambda>c. c \<noteq> 0) [1 :: int]) \<and>
   length (filter (\<lambda>c. c \<noteq> 0) [1 :: int]) \<le> max 1 (prob_P (CloudletProblem_init inst_B) div 4) \<and>
   length [0 :: int] = prob_E (CloudletProblem_init inst_B) \<and>
   list_all (\<lambda>p. 0 \<le> p \<and> p < int (prob_P (CloudletProblem_init inst_B))) [0]"
proof -
  have p: "1 \<le> prob_P (CloudletProblem_init inst_B)" and t: "1 \<le> prob_T (CloudletProblem_init inst_B)"
    by (simp_all add: prob_B)
  have r: "random_solution (CloudletProblem_init inst_B) None rng0 = Inr ([1], [0], rng0\<lparr> np_pos := 4 \<rparr>)"
    by (simp add: prob_B random_solution_defs rng_defs rng0_def pop_at_def np_get_def np_get2_def
        py_index_def ebind_def)
  from random_solution_in_range[OF refl p t, of rng0] show ?thesis
    unfolding r using p t r by simp
qed

section \<open>Properties of repair_solution\<close>

lemma prob_C: "CloudletProblem_init inst_C =
   \<lparr> prob_locations = [(0, 0), (50, 0)],
     prob_devices = [(10 + 5 / 10000000000, 0), (50, 0)],
     prob_cloudlet_types = [\<lparr> ct_R = 10, ct_CPU = 10, ct_MEM = 10, ct_STO = 10 \<rparr>,
                            \<lparr> ct_R = 100, ct_CPU = 1, ct_MEM = 1, ct_STO = 1 \<rparr>],
     prob_demands = [\<lparr> d_cpu = 1, d_mem = 1, d_sto = 1 \<rparr>,
                     \<lparr> d_cpu = 1, d_mem = 1, d_sto = 1 \<rparr>],
     prob_placement_cost = [[100, 100], [200, 200]],
     prob_P = 2, prob_E = 2, prob_T = 2,
     prob_dist = [[10 + 5 / 10000000000, 50 - (10 + 5 / 10000000000)], [50, 0]] \<rparr>"
  by (simp add: CloudletProblem_init_def inst_C_def norm2_same_y)

lemmas repair_defs = repair_solution_def repair_values_def np_copy_def feasible_init_def
  covering_locations_def covering_step_def fix_step_def arr_write_def capacity_of_def
  used_sub_def demand_sum_def assigned_devices_def relieve_step_def py_sort_def
  demand_used_def used_step_def used_zeros_def used_add_def

text \<open>
  C5 fails on the code.  On \<open>inst_C\<close> with cloudlet types 1 and 2 placed and the
  devices assigned to locations 0 and 1, evaluate finds penalty 0: the first device is
  \<open>5e-10\<close> outside the radius 10, inside evaluate's tolerance of \<open>1e-9\<close>.  The repair
  tests the radius without the tolerance, moves that device to location 1, whose capacity
  the second device already uses up, and the repaired solution has penalty 30000.
\<close>

theorem repair_perturbs_zero_penalty_solution:
  "evaluate (CloudletProblem_init inst_C) [1, 2] [0, 1] penalty_coeff_default =
     Inr \<lparr> placement_cost = 300, latency = 10 + 5 / 10000000000, penalty = 0,
           fitness = 0.4 * 300 + 0.6 * (10 + 5 / 10000000000) \<rparr> \<and>
   repair_values (CloudletProblem_init inst_C) [1, 2] [0, 1] rng0 =
     Inr ([1, 2], [1, 1], rng0\<lparr> np_pos := 1 \<rparr>) \<and>
   evaluate (CloudletProblem_init inst_C) [1, 2] [1, 1] penalty_coeff_default =
     Inr \<lparr> placement_cost = 300, latency = 50 - (10 + 5 / 10000000000), penalty = 30000,
           fitness = 0.4 * 300 + 0.6 * (50 - (10 + 5 / 10000000000)) + 30000 * 1000000 \<rparr>"
proof (intro conjI)
  show "evaluate (CloudletProblem_init inst_C) [1, 2] [0, 1] penalty_coeff_default =
     Inr \<lparr> placement_cost = 300, latency = 10 + 5 / 10000000000, penalty = 0,
           fitness = 0.4 * 300 + 0.6 * (10 + 5 / 10000000000) \<rparr>"
    by (simp add: prob_C eval_defs numeral_2_eq_2)
  show "repair_values (CloudletProblem_init inst_C) [1, 2] [0, 1] rng0 =
     Inr ([1, 2], [1, 1], rng0\<lparr> np_pos := 1 \<rparr>)"
    by (simp add: prob_C repair_defs rng_defs rng0_def np_get_def np_get2_def py_index_def
        ebind_def numeral_3_eq_3 numeral_2_eq_2)
  show "evaluate (CloudletProblem_init inst_C) [1, 2] [1, 1] penalty_coeff_default =
     Inr \<lparr> placement_cost = 300, latency = 50 - (10 + 5 / 10000000000), penalty = 30000,
           fitness = 0.4 * 300 + 0.6 * (50 - (10 + 5 / 10000000000)) + 30000 * 1000000 \<rparr>"
    by (simp add: prob_C eval_defs numeral_2_eq_2)
qed

lemma heap_step_refl: "heap_step pl as h h"
  by (simp add: heap_step_def)

lemma heap_step_trans: "heap_step pl as h h1 \<Longrightarrow> heap_step pl as h1 h2 \<Longrightarrow> heap_step pl as h h2"
  by (simp add: heap_step_def)

lemma arr_write_as:
  assumes "arr_write h as i v = Inr h'" "pl \<noteq> as"
  shows "heap_step pl as h h'"
proof -
  from assms(1) have h': "h' = h[as := (h ! as)[i := v]]"
    by (simp add: arr_write_def split: if_splits)
  show ?thesis using assms(2) by (simp add: h' heap_step_def)
qed

lemma arr_write_pl:
  assumes "arr_write h pl i v = Inr h'" "v \<noteq> 0"
  shows "heap_step pl as h h'"
proof -
  from assms(1) have h': "h' = h[pl := (h ! pl)[i := v]]"
    by (simp add: arr_write_def split: if_splits)
  show ?thesis
  proof (cases "pl < length h")
    case True
    have "(h ! pl)[i := v] ! p \<noteq> 0" if "p < length (h ! pl)" "(h ! pl) ! p \<noteq> 0" for p
      using that assms(2) by (cases "i = p") simp_all
    with True show ?thesis by (simp add: h' heap_step_def)
  next
    case False
    then have "length h \<le> pl" by simp
    then show ?thesis by (simp add: h' heap_step_def list_update_beyond)
  qed
qed

lemma arr_write_pl_as:
  assumes "arr_write h pl i (int t + 1) = Inr h1" "arr_write h1 as e v = Inr h2" "pl \<noteq> as"
  shows "heap_step pl as h h2"
proof -
  have "int t + 1 \<noteq> 0" by simp
  from arr_write_pl[OF assms(1) this] arr_write_as[OF assms(2,3)] show ?thesis
    by (rule heap_step_trans)
qed

lemma fix_step_heap:
  assumes "fix_step prob pl as e (h, f, g) = Inr (h', f', g')" "pl \<noteq> as"
  shows "heap_step pl as h h'"
proof -
  from assms(1) obtain p where p: "np_get (h ! as) e = Inr p"
    by (auto simp: fix_step_def ebind_eq_Inr)
  show ?thesis
  proof (cases "p < 0 \<or> p \<ge> int (prob_P prob) \<or> nat p \<notin> set (f ! e)")
    case False
    with assms(1) p have "h' = h" by (auto simp: fix_step_def ebind_Inr)
    then show ?thesis by (simp add: heap_step_refl)
  next
    case bad: True
    show ?thesis
    proof (cases "length (f ! e) > 0")
      case True
      with assms(1) p bad obtain q where "arr_write h as e (int q) = Inr h'"
        by (auto simp: fix_step_def ebind_eq_Inr ebind_Inr)
      then show ?thesis by (rule arr_write_as[OF _ assms(2)])
    next
      case False
      with assms(1) p bad obtain row near_p where
        r: "(case first_type (row ! near_p) (prob_cloudlet_types prob) 0 of
              Some chosen \<Rightarrow>
                ebind (arr_write h pl near_p (int chosen + 1)) (\<lambda>h1.
                ebind (arr_write h1 as e (int near_p)) (\<lambda>h2.
                  Inr (h2, f[e := f ! e @ [near_p]], g)))
            | None \<Rightarrow> ebind (arr_write h as e (int near_p)) (\<lambda>h1. Inr (h1, f, g))) =
            Inr (h', f', g')"
        by (auto simp: fix_step_def ebind_eq_Inr ebind_Inr)
      show ?thesis
      proof (cases "first_type (row ! near_p) (prob_cloudlet_types prob) 0")
        case None
        with r have "arr_write h as e (int near_p) = Inr h'" by (auto simp: ebind_eq_Inr)
        then show ?thesis by (rule arr_write_as[OF _ assms(2)])
      next
        case (Some chosen)
        with r obtain h1 where "arr_write h pl near_p (int chosen + 1) = Inr h1"
          "arr_write h1 as e (int near_p) = Inr h'" by (auto simp: ebind_eq_Inr)
        then show ?thesis using assms(2) by (rule arr_write_pl_as)
      qed
    qed
  qed
qed

lemma fix_loop_heap:
  assumes "efold (fix_step prob pl as) es (h, f, g) = Inr (h', f', g')" "pl \<noteq> as"
  shows "heap_step pl as h h'"
proof -
  let ?Q = "\<lambda>s :: heap \<times> nat list list \<times> rng. heap_step pl as h (fst s)"
  have "?Q (h', f', g')"
  proof (rule efold_inv[OF assms(1), where Q = ?Q])
    show "?Q (h, f, g)" by (simp add: heap_step_refl)
  next
    fix x and a b :: "heap \<times> nat list list \<times> rng"
    assume q: "?Q a" and st: "fix_step prob pl as x a = Inr b"
    obtain h1 f1 g1 where a: "a = (h1, f1, g1)" by (cases a)
    obtain h2 f2 g2 where b: "b = (h2, f2, g2)" by (cases b)
    from fix_step_heap[OF st[unfolded a b] assms(2)] q a b
    show "?Q b" by (auto intro: heap_step_trans)
  qed
  then show ?thesis by simp
qed

lemma move_devices_heap:
  assumes "pl \<noteq> as"
  shows "move_devices prob as f p caps es (h, u, m) = Inr (h', u', m') \<Longrightarrow> heap_step pl as h h'"
proof (induction es arbitrary: h u m)
  case Nil
  then show ?case by (simp add: heap_step_refl)
next
  case (Cons e es)
  show ?case
  proof (cases "length (filter (\<lambda>pp. pp \<noteq> p) (f ! e)) = 0")
    case True
    with Cons.prems have "move_devices prob as f p caps es (h, u, m) = Inr (h', u', m')"
      by simp
    then show ?thesis by (rule Cons.IH)
  next
    case False
    with Cons.prems obtain newp d h1 where
      w: "arr_write h as e (int newp) = Inr h1" and
      r: "(let u1 = used_add (used_sub u p d) newp d in
            case caps of (cap_cpu, cap_mem, cap_sto) \<Rightarrow>
              if cpu_used u1 ! p \<le> cap_cpu \<and> mem_used u1 ! p \<le> cap_mem \<and>
                 sto_used u1 ! p \<le> cap_sto
              then Inr (h1, u1, True)
              else move_devices prob as f p caps es (h1, u1, True)) = Inr (h', u', m')"
      by (auto simp: ebind_eq_Inr Let_def)
    have s1: "heap_step pl as h h1" using w assms by (rule arr_write_as)
    obtain cc cm cs where caps: "caps = (cc, cm, cs)" by (cases caps)
    let ?u1 = "used_add (used_sub u p d) newp d"
    show ?thesis
    proof (cases "cpu_used ?u1 ! p \<le> cc \<and> mem_used ?u1 ! p \<le> cm \<and> sto_used ?u1 ! p \<le> cs")
      case True
      with r caps have "h' = h1" by (simp add: Let_def)
      with s1 show ?thesis by simp
    next
      case False
      with r caps have "move_devices prob as f p caps es (h1, ?u1, True) = Inr (h', u', m')"
        by (simp add: Let_def)
      from heap_step_trans[OF s1 Cons.IH[OF this]] show ?thesis .
    qed
  qed
qed

lemma relieve_step_heap:
  assumes "relieve_step prob pl as f p (h, u, m) = Inr (h', u', m')" "pl \<noteq> as"
  shows "heap_step pl as h h'"
proof -
  from assms(1) obtain c where c: "np_get (h ! pl) p = Inr c"
    by (auto simp: relieve_step_def ebind_eq_Inr)
  show ?thesis
  proof (cases "c = 0")
    case True
    with assms(1) c have "h' = h" by (simp add: relieve_step_def ebind_Inr)
    then show ?thesis by (simp add: heap_step_refl)
  next
    case False
    with assms(1) c obtain cc cm cs where
      r: "(if cpu_used u ! p - cc > 0 \<or> mem_used u ! p - cm > 0 \<or> sto_used u ! p - cs > 0
           then ebind (assigned_devices prob (h ! as) p) (\<lambda>devs.
                ebind (py_sort (demand_sum prob) True devs) (\<lambda>devs'.
                  move_devices prob as f p (cc, cm, cs) devs' (h, u, m)))
           else Inr (h, u, m)) = Inr (h', u', m')"
      by (auto simp: relieve_step_def ebind_eq_Inr ebind_Inr)
    show ?thesis
    proof (cases "cpu_used u ! p - cc > 0 \<or> mem_used u ! p - cm > 0 \<or> sto_used u ! p - cs > 0")
      case True
      with r obtain devs' where "move_devices prob as f p (cc, cm, cs) devs' (h, u, m) = Inr (h', u', m')"
        by (auto simp: ebind_eq_Inr)
      then show ?thesis by (rule move_devices_heap[OF assms(2)])
    next
      case False
      with r have "h' = h" by simp
      then show ?thesis by (simp add: heap_step_refl)
    qed
  qed
qed

lemma relieve_loop_heap:
  assumes "efold (relieve_step prob pl as f) ps (h, u, m) = Inr (h', u', m')" "pl \<noteq> as"
  shows "heap_step pl as h h'"
proof -
  let ?Q = "\<lambda>s :: heap \<times> used \<times> bool. heap_step pl as h (fst s)"
  have "?Q (h', u', m')"
  proof (rule efold_inv[OF assms(1), where Q = ?Q])
    show "?Q (h, u, m)" by (simp add: heap_step_refl)
  next
    fix x and a b :: "heap \<times> used \<times> bool"
    assume q: "?Q a" and st: "relieve_step prob pl as f x a = Inr b"
    obtain h1 u1 m1 where a: "a = (h1, u1, m1)" by (cases a)
    obtain h2 u2 m2 where b: "b = (h2, u2, m2)" by (cases b)
    from relieve_step_heap[OF st[unfolded a b] assms(2)] q a b
    show "?Q b" by (auto intro: heap_step_trans)
  qed
  then show ?thesis by simp
qed

lemma capacity_passes_heap:
  assumes "pl \<noteq> as"
  shows "capacity_passes prob pl as f n h = Inr h' \<Longrightarrow> heap_step pl as h h'"
proof (induction n arbitrary: h)
  case 0
  then show ?case by (simp add: heap_step_refl)
next
  case (Suc n)
  from Suc.prems obtain u h1 u1 m1 where
    l: "efold (relieve_step prob pl as f) [0..<prob_P prob] (h, u, False) = Inr (h1, u1, m1)" and
    r: "(if \<not> m1 then Inr h1 else capacity_passes prob pl as f n h1) = Inr h'"
    by (auto simp: ebind_eq_Inr)
  from relieve_loop_heap[OF l assms] have s1: "heap_step pl as h h1" .
  show ?case
  proof (cases m1)
    case True
    with r have "capacity_passes prob pl as f n h1 = Inr h'" by simp
    from heap_step_trans[OF s1 Suc.IH[OF this]] show ?thesis .
  next
    case False
    with r s1 show ?thesis by simp
  qed
qed

lemma repair_solution_heap:
  assumes "repair_solution prob h pa aa g = Inr (h', pl, as, g')"
  shows "pl = length h \<and> as = Suc (length h) \<and>
         heap_step pl as (h @ [h ! pa, (h @ [h ! pa]) ! aa]) h'"
proof -
  let ?h2 = "h @ [h ! pa, (h @ [h ! pa]) ! aa]"
  have cp: "np_copy h pa = (h @ [h ! pa], length h)"
    "np_copy (h @ [h ! pa]) aa = (?h2, Suc (length h))"
    by (simp_all add: np_copy_def)
  from assms obtain f h3 f' where
    addr: "pl = length h" "as = Suc (length h)" and
    fx: "efold (fix_step prob (length h) (Suc (length h))) [0..<prob_E prob] (?h2, f, g) = Inr (h3, f', g')" and
    cap: "capacity_passes prob (length h) (Suc (length h)) f' 3 h3 = Inr h'"
    by (auto simp: repair_solution_def cp ebind_eq_Inr)
  have ne: "length h \<noteq> Suc (length h)" by simp
  from heap_step_trans[OF fix_loop_heap[OF fx ne] capacity_passes_heap[OF ne cap]] addr
  show ?thesis by simp
qed


text \<open>
  C9: repair_solution does not write into its argument arrays.  Every array of the store
  the call starts from has the same content afterwards, and the two returned arrays are
  new ones: their addresses are different and were not allocated before the call.
\<close>

theorem repair_solution_frame:
  assumes "repair_solution prob h place_loc_arg assign_dev_arg g = Inr (h', pl, as, g')"
  shows "(\<forall>a < length h. h' ! a = h ! a) \<and>
         length h \<le> pl \<and> length h \<le> as \<and> pl \<noteq> as \<and> pl < length h' \<and> as < length h'"
proof -
  from repair_solution_heap[OF assms] have
    a: "pl = length h" "as = Suc (length h)" and
    st: "heap_step pl as (h @ [h ! place_loc_arg, (h @ [h ! place_loc_arg]) ! assign_dev_arg]) h'"
    by blast+
  from st have len: "length h' = length h + 2" by (simp add: heap_step_def)
  have "h' ! b = h ! b" if "b < length h" for b
  proof -
    from that a have "b \<noteq> pl" "b \<noteq> as" by simp_all
    with st have "h' ! b = (h @ [h ! place_loc_arg, (h @ [h ! place_loc_arg]) ! assign_dev_arg]) ! b"
      by (simp add: heap_step_def)
    with that show ?thesis by (simp add: nth_append)
  qed
  with a len show ?thesis by simp
qed

theorem repair_solution_frame_witness:
  "repair_solution (CloudletProblem_init inst_C) [[1, 0], [0, 0]] 0 1 rng0 =
     Inr ([[1, 0], [0, 0], [2, 1], [0, 1]], 2, 3, rng0) \<and>
   [[1, 0], [0, 0], [2, 1], [0, 1]] ! 0 = [[1, 0], [0, 0 :: int]] ! 0 \<and>
   [[1, 0], [0, 0], [2, 1], [0, 1]] ! 1 = [[1, 0], [0, 0 :: int]] ! 1 \<and>
   length [[1, 0], [0, 0 :: int]] \<le> 2 \<and> length [[1, 0], [0, 0 :: int]] \<le> 3 \<and>
   (2 :: nat) < length [[1, 0], [0, 0], [2, 1], [0, 1 :: int]] \<and>
   (3 :: nat) < length [[1, 0], [0, 0], [2, 1], [0, 1 :: int]]"
proof -
  have r: "repair_solution (CloudletProblem_init inst_C) [[1, 0], [0, 0]] 0 1 rng0 =
     Inr ([[1, 0], [0, 0], [2, 1], [0, 1]], 2, 3, rng0)"
    by (simp add: prob_C repair_defs rng_defs rng0_def np_get_def np_get2_def py_index_def
        ebind_def numeral_3_eq_3 numeral_2_eq_2)
  from repair_solution_frame[OF r] r show ?thesis by simp
qed

text \<open>
  C10: the repair never unplaces a location.  The returned placement vector has the
  length of the given one, and wherever the given one is not zero the returned one is
  not zero.
\<close>

theorem repair_keeps_placements:
  assumes "repair_values prob place_loc assign_dev g = Inr (place_loc', assign_dev', g')"
  shows "length place_loc' = length place_loc \<and>
         (\<forall>p < length place_loc. place_loc ! p \<noteq> 0 \<longrightarrow> place_loc' ! p \<noteq> 0)"
proof -
  from assms obtain h' pl as where
    r: "repair_solution prob [place_loc, assign_dev] 0 1 g = Inr (h', pl, as, g')" and
    p: "place_loc' = h' ! pl"
    by (auto simp: repair_values_def ebind_eq_Inr)
  from repair_solution_heap[OF r] have
    a: "pl = 2" and
    st: "heap_step pl as [place_loc, assign_dev, place_loc, assign_dev] h'"
    by auto
  from st a p show ?thesis by (simp add: heap_step_def)
qed

theorem repair_keeps_placements_witness:
  "repair_values (CloudletProblem_init inst_C) [1, 0] [0, 0] rng0 = Inr ([2, 1], [0, 1], rng0) \<and>
   length [2, 1 :: int] = length [1, 0 :: int] \<and> [1, 0 :: int] ! 0 \<noteq> 0 \<and> [2, 1 :: int] ! 0 \<noteq> 0"
proof -
  have r: "repair_values (CloudletProblem_init inst_C) [1, 0] [0, 0] rng0 = Inr ([2, 1], [0, 1], rng0)"
    by (simp add: prob_C repair_defs rng_defs rng0_def np_get_def np_get2_def py_index_def
        ebind_def numeral_3_eq_3 numeral_2_eq_2)
  from repair_keeps_placements[OF r] r show ?thesis by simp
qed

section \<open>The global best score\<close>

lemma score_le_refl: "score_le a a"
  by (cases a) (simp_all add: score_le_def)

lemma score_le_trans: "score_le a b \<Longrightarrow> score_le b c \<Longrightarrow> score_le a c"
  by (cases a; cases b; cases c) (simp_all add: score_le_def)

lemma fit_less_score_le: "fit_less x s \<Longrightarrow> score_le (Finite x) s"
  by (cases s) (simp_all add: fit_less_def score_le_def)

lemma update_bests_score:
  assumes "update_bests evals i opt = Inr opt'"
  shows "global_best_score opt' =
     (if fit_less (fitness (evals ! i)) (global_best_score opt)
      then Finite (fitness (evals ! i)) else global_best_score opt)"
proof -
  from assms obtain part where pt: "np_get (population opt) i = Inr part"
    and ms: "np_get evals i = Inr (evals ! i)"
    by (auto simp: update_bests_def ebind_eq_Inr np_get_eq_Inr)
  from assms have "Inr opt' = update_bests evals i opt" by simp
  then show ?thesis
    by (simp add: update_bests_def ebind_Inr pt ms Let_def)
qed

lemma update_bests_le:
  "update_bests evals i opt = Inr opt' \<Longrightarrow> score_le (global_best_score opt') (global_best_score opt)"
  by (simp add: update_bests_score score_le_refl fit_less_score_le)

lemma update_loop_le:
  assumes "efold (update_bests evals) idxs opt = Inr opt'"
  shows "score_le (global_best_score opt') (global_best_score opt)"
proof (rule efold_inv[OF assms, where Q = "\<lambda>z. score_le (global_best_score z) (global_best_score opt)"])
  show "score_le (global_best_score opt) (global_best_score opt)" by (rule score_le_refl)
next
  fix x a b
  assume "score_le (global_best_score a) (global_best_score opt)" "update_bests evals x a = Inr b"
  then show "score_le (global_best_score b) (global_best_score opt)"
    using update_bests_le score_le_trans by blast
qed

lemma generation_history:
  assumes "generation it (opt, g, h) = Inr (opt', g', h')"
  shows "h' = h @ [global_best_score opt'] \<and>
         score_le (global_best_score opt') (global_best_score opt) \<and>
         max_iter opt' = max_iter opt"
proof -
  from assms obtain evals opt1 pop3 where
    u: "efold (update_bests evals) [0..<length (population opt)] opt = Inr opt1" and
    r: "opt' = opt1\<lparr> population := pop3 \<rparr>" "h' = h @ [global_best_score opt1]"
    by (auto simp: generation_def ebind_eq_Inr)
  have "max_iter opt1 = max_iter opt"
  proof (rule efold_inv[OF u, where Q = "\<lambda>z. max_iter z = max_iter opt"])
    show "max_iter opt = max_iter opt" by simp
  next
    fix x a b
    assume "max_iter a = max_iter opt" "update_bests evals x a = Inr b"
    then show "max_iter b = max_iter opt"
      by (auto simp: update_bests_def ebind_eq_Inr Let_def split: if_splits)
  qed
  with update_loop_le[OF u] r show ?thesis by simp
qed


lemma generation_inv:
  assumes "history_inv s" "generation it s = Inr s'"
  shows "history_inv s'"
proof -
  obtain opt g h where s: "s = (opt, g, h)" by (cases s)
  obtain opt' g' h' where s': "s' = (opt', g', h')" by (cases s')
  from generation_history[OF assms(2)[unfolded s s']] have
    h': "h' = h @ [global_best_score opt']" and
    le: "score_le (global_best_score opt') (global_best_score opt)" by simp_all
  from assms(1) s have srt: "sorted_wrt (\<lambda>a b. score_le b a) h"
    and all: "\<forall>x \<in> set h. score_le (global_best_score opt) x"
    by (simp_all add: history_inv_def list_all_iff)
  from all le have all': "\<forall>x \<in> set h. score_le (global_best_score opt') x"
    using score_le_trans by blast
  then show ?thesis
    using srt by (simp add: s' h' history_inv_def sorted_wrt_append list_all_iff score_le_refl)
qed

lemma run_history_sorted:
  assumes "run opt g = Inr (res, opt', g')"
  shows "sorted_wrt (\<lambda>a b. score_le b a) (res_history res)"
proof -
  from assms obtain h where
    l: "efold generation [0..<max_iter opt] (opt, g, []) = Inr (opt', g', h)" and
    r: "res_history res = h"
    by (auto simp: run_def ebind_eq_Inr)
  have "history_inv (opt', g', h)"
  proof (rule efold_inv[OF l, where Q = history_inv])
    show "history_inv (opt, g, [])" by (simp add: history_inv_def)
  next
    fix x a b
    assume "history_inv a" "generation x a = Inr b"
    then show "history_inv b" by (rule generation_inv)
  qed
  with r show ?thesis by (simp add: history_inv_def)
qed


lemma generation_loop_length:
  "efold generation xs (opt, g, h) = Inr (opt', g', h') \<Longrightarrow> length h' = length h + length xs"
proof (induction xs arbitrary: opt g h)
  case Nil
  then show ?case by simp
next
  case (Cons x xs)
  from Cons.prems obtain opt1 g1 h1 where
    s: "generation x (opt, g, h) = Inr (opt1, g1, h1)" and
    r: "efold generation xs (opt1, g1, h1) = Inr (opt', g', h')"
    by (auto simp: ebind_eq_Inr)
  from generation_history[OF s] Cons.IH[OF r] show ?case by simp
qed

lemmas optimizer_defs = run_def generation_def evaluate_population_def update_bests_def
  firefly_phase_def firefly_pair_def firefly_move_def firefly_step_def move_particle_def
  local_pso_move_def pso_place_step_def pso_assign_step_def adopt_def jump_def toggle_place_def
  mutate_def mutate_place_step_def py_random_def py_randint_def np_set_def fit_less_def
  nondominated_archive_update_def dominates_def Particle_init_def Let_def

text \<open>
  C4: the global best score never increases.  A particle replaces it only when its
  newly evaluated fitness is strictly lower; a generation ends with a score not above the
  one it started with; the history returned by a run has one entry per generation, is
  non-increasing, and the returned best score is not above any entry.
\<close>

theorem global_best_score_non_increasing:
  "(update_bests evals i opt = Inr opt1 \<longrightarrow>
      global_best_score opt1 =
        (if fit_less (fitness (evals ! i)) (global_best_score opt)
         then Finite (fitness (evals ! i)) else global_best_score opt)) \<and>
   (generation it (opt, g, h) = Inr (opt2, g2, h2) \<longrightarrow>
      h2 = h @ [global_best_score opt2] \<and>
      score_le (global_best_score opt2) (global_best_score opt)) \<and>
   (run opt g = Inr (res, opt3, g3) \<longrightarrow>
      length (res_history res) = max_iter opt \<and>
      sorted_wrt (\<lambda>a b. score_le b a) (res_history res) \<and>
      list_all (\<lambda>x. score_le (res_best_score res) x) (res_history res))"
proof (intro conjI impI)
  assume "update_bests evals i opt = Inr opt1"
  then show "global_best_score opt1 =
        (if fit_less (fitness (evals ! i)) (global_best_score opt)
         then Finite (fitness (evals ! i)) else global_best_score opt)"
    by (rule update_bests_score)
next
  assume a: "generation it (opt, g, h) = Inr (opt2, g2, h2)"
  from generation_history[OF a] show "h2 = h @ [global_best_score opt2]"
    and "score_le (global_best_score opt2) (global_best_score opt)" by simp_all
next
  assume r: "run opt g = Inr (res, opt3, g3)"
  then obtain hs where
    l: "efold generation [0..<max_iter opt] (opt, g, []) = Inr (opt3, g3, hs)" and
    e: "res_history res = hs" "res_best_score res = global_best_score opt3"
    by (auto simp: run_def ebind_eq_Inr)
  from generation_loop_length[OF l] e show "length (res_history res) = max_iter opt" by simp
  have "history_inv (opt3, g3, hs)"
  proof (rule efold_inv[OF l, where Q = history_inv])
    show "history_inv (opt, g, [])" by (simp add: history_inv_def)
  next
    fix x a b
    assume "history_inv a" "generation x a = Inr b"
    then show "history_inv b" by (rule generation_inv)
  qed
  with e show "sorted_wrt (\<lambda>a b. score_le b a) (res_history res)"
    and "list_all (\<lambda>x. score_le (res_best_score res) x) (res_history res)"
    by (simp_all add: history_inv_def)
qed

theorem global_best_score_non_increasing_witness:
  "\<exists>res opt' g'. run opt_W rng9 = Inr (res, opt', g') \<and>
     res_history res = [Finite 1100000000001.8, Finite 41.8] \<and>
     res_best_score res = Finite 41.8 \<and>
     length (res_history res) = max_iter opt_W \<and>
     sorted_wrt (\<lambda>a b. score_le b a) (res_history res) \<and>
     list_all (\<lambda>x. score_le (res_best_score res) x) (res_history res)"
proof -
  have "\<exists>res opt' g'. run opt_W rng9 = Inr (res, opt', g') \<and>
     res_history res = [Finite 1100000000001.8, Finite 41.8] \<and> res_best_score res = Finite 41.8"
    by (simp add: opt_W_def prob_B optimizer_defs eval_defs repair_defs rng_defs rng9_def
        numeral_2_eq_2 numeral_3_eq_3)
  then obtain res opt' g' where r: "run opt_W rng9 = Inr (res, opt', g')"
    and h: "res_history res = [Finite 1100000000001.8, Finite 41.8]" "res_best_score res = Finite 41.8"
    by blast
  from global_best_score_non_increasing[where opt = opt_W and g = rng9 and res = res
      and ?opt3.0 = opt' and ?g3.0 = g'] r
  have "length (res_history res) = max_iter opt_W \<and>
      sorted_wrt (\<lambda>a b. score_le b a) (res_history res) \<and>
      list_all (\<lambda>x. score_le (res_best_score res) x) (res_history res)"
    by blast
  with r h show ?thesis by blast
qed

section \<open>Construction of the optimizer\<close>




section \<open>The firefly phase\<close>

lemma ndiff_Suc: "ndiff b xs (Suc n) = ndiff b xs n + (if b ! n \<noteq> xs ! n then 1 else 0)"
  by (simp add: ndiff_def)

lemma update_after_prefix:
  assumes "length as = n" "n < length xs"
  shows "(as @ drop n xs)[n := v] = as @ v # drop (Suc n) xs"
    and "as @ drop n xs = as @ xs ! n # drop (Suc n) xs"
    and "(as @ drop n xs) ! n = xs ! n"
proof -
  from assms(2) have d: "drop n xs = xs ! n # drop (Suc n) xs" by (simp add: Cons_nth_drop_Suc)
  show "(as @ drop n xs)[n := v] = as @ v # drop (Suc n) xs"
    using assms(1) by (simp add: d list_update_append)
  show "as @ drop n xs = as @ xs ! n # drop (Suc n) xs" by (simp add: d)
  show "(as @ drop n xs) ! n = xs ! n" using assms by (simp add: nth_append)
qed

lemma firefly_loop:
  assumes "n \<le> length b" "n \<le> length xs"
  shows "efold (firefly_step thr b) [0..<n] (xs, g) =
     Inr (map (ff_slot thr b xs g (py_pos g)) [0..<n] @ drop n xs,
          g\<lparr> py_pos := py_pos g + ndiff b xs n \<rparr>)"
  using assms
proof (induction n)
  case 0
  show ?case by (simp add: ndiff_def)
next
  case (Suc n)
  let ?as = "map (ff_slot thr b xs g (py_pos g)) [0..<n]"
  let ?g = "g\<lparr> py_pos := py_pos g + ndiff b xs n \<rparr>"
  have ih: "efold (firefly_step thr b) [0..<n] (xs, g) = Inr (?as @ drop n xs, ?g)"
    using Suc by simp
  have la: "length ?as = n" by simp
  have n: "n < length xs" "n < length b" using Suc.prems by simp_all
  note u = update_after_prefix[OF la n(1)]
  have len: "n < length (?as @ drop n xs)" using n by simp
  have st: "firefly_step thr b n (?as @ drop n xs, ?g) =
     Inr (?as @ ff_slot thr b xs g (py_pos g) n # drop (Suc n) xs,
          g\<lparr> py_pos := py_pos g + ndiff b xs (Suc n) \<rparr>)"
    using n len
    by (simp add: firefly_step_def np_get_Inr ebind_Inr u(3) py_random_def np_set_def
        ff_slot_def ndiff_Suc u(1) u(2)[symmetric])
  show ?case
    by (simp add: efold_snoc ih ebind_Inr st)
qed


lemma ff_slot_pos: "ff_slot thr b xs (g\<lparr> py_pos := k \<rparr>) start i = ff_slot thr b xs g start i"
  by (simp add: ff_slot_def)

lemma firefly_move_val:
  assumes "length (p_place_loc part) = prob_P prob" "length (p_place_loc brighter) = prob_P prob"
    "length (p_assign_dev part) = prob_E prob" "length (p_assign_dev brighter) = prob_E prob"
  shows "firefly_move prob part brighter g =
     Inr (part\<lparr> p_place_loc :=
                   map (ff_slot 0.5 (p_place_loc brighter) (p_place_loc part) g (py_pos g))
                     [0..<prob_P prob],
                 p_assign_dev :=
                   map (ff_slot 0.4 (p_assign_dev brighter) (p_assign_dev part) g
                          (py_pos g + ndiff (p_place_loc brighter) (p_place_loc part) (prob_P prob)))
                     [0..<prob_E prob] \<rparr>,
          g\<lparr> py_pos := py_pos g + ndiff (p_place_loc brighter) (p_place_loc part) (prob_P prob) +
                          ndiff (p_assign_dev brighter) (p_assign_dev part) (prob_E prob) \<rparr>)"
proof -
  let ?g1 = "g\<lparr> py_pos := py_pos g + ndiff (p_place_loc brighter) (p_place_loc part) (prob_P prob) \<rparr>"
  have l1: "efold (firefly_step 0.5 (p_place_loc brighter)) [0..<prob_P prob] (p_place_loc part, g) =
      Inr (map (ff_slot 0.5 (p_place_loc brighter) (p_place_loc part) g (py_pos g)) [0..<prob_P prob],
           ?g1)"
    using firefly_loop[of "prob_P prob" "p_place_loc brighter" "p_place_loc part" "0.5" g] assms(1,2)
    by simp
  have l2: "efold (firefly_step 0.4 (p_assign_dev brighter)) [0..<prob_E prob] (p_assign_dev part, ?g1) =
      Inr (map (ff_slot 0.4 (p_assign_dev brighter) (p_assign_dev part) g (py_pos ?g1)) [0..<prob_E prob],
           ?g1\<lparr> py_pos := py_pos ?g1 + ndiff (p_assign_dev brighter) (p_assign_dev part) (prob_E prob) \<rparr>)"
    using firefly_loop[of "prob_E prob" "p_assign_dev brighter" "p_assign_dev part" "0.4" ?g1] assms(3,4)
    by (simp add: ff_slot_pos)
  show ?thesis
    unfolding firefly_move_def l1 ebind_Inr prod.case l2 by simp
qed

lemma efold_map: "efold f (map h xs) s = efold (\<lambda>x. f (h x)) xs s"
proof (induction xs arbitrary: s)
  case Nil
  show ?case by simp
next
  case (Cons x xs)
  show ?case by (cases "f (h x) s") (simp_all add: ebind_Inl ebind_Inr Cons)
qed

lemma efold_nested:
  "efold (\<lambda>x. efold (f x) (ys x)) xs s =
   efold (\<lambda>(x, y). f x y) (concat (map (\<lambda>x. map (Pair x) (ys x)) xs)) s"
proof (induction xs arbitrary: s)
  case Nil
  show ?case by simp
next
  case (Cons x xs)
  show ?case
    by (cases "efold (f x) (ys x) s")
       (simp_all add: efold_append efold_map ebind_Inl ebind_Inr Cons)
qed

lemma firefly_phase_pairs:
  "firefly_phase prob evals (pop, g) =
     efold (\<lambda>(ii, jj). firefly_pair prob evals
                          (sort_key (\<lambda>i. fitness (evals ! i)) [0..<length pop]) ii jj)
       (rank_pairs (length pop)) (pop, g)"
  by (simp add: firefly_phase_def rank_pairs_def efold_nested Let_def)

lemma firefly_pair_val:
  assumes "ii < length sorted_idx" "jj < length sorted_idx"
    "sorted_idx ! ii < length pop" "sorted_idx ! jj < length pop"
    "sorted_idx ! ii < length evals" "sorted_idx ! jj < length evals"
  shows "firefly_pair prob evals sorted_idx ii jj (pop, g) =
     (if fitness (evals ! (sorted_idx ! jj)) < fitness (evals ! (sorted_idx ! ii))
      then ebind (firefly_move prob (pop ! (sorted_idx ! ii)) (pop ! (sorted_idx ! jj)) g)
             (\<lambda>(part', g'). Inr (pop[sorted_idx ! ii := part'], g'))
      else Inr (pop, g))"
  using assms by (simp add: firefly_pair_def np_get_Inr ebind_Inr)


text \<open>
  C8: the firefly phase.  The phase visits the pairs of ranks \<open>(ii, jj)\<close>, \<open>jj < ii\<close>,
  in the order of \<open>rank_pairs\<close> over the ascending-fitness ranking.  At a pair, the
  particle \<open>i\<close> of rank \<open>ii\<close> moves towards the particle \<open>j\<close> of rank \<open>jj\<close> when
  \<open>j\<close> has the strictly lower fitness, and nothing happens otherwise.  The move
  overwrites a placement slot where the two differ by \<open>j\<close>'s value exactly when the draw
  of that slot is below 0.5, an assignment slot where they differ exactly when its draw is
  below 0.4; slots where they agree take no draw and keep their value.
\<close>

theorem firefly_phase_moves:
  "firefly_phase prob evals (pop, g) =
     efold (\<lambda>(ii, jj). firefly_pair prob evals
                          (sort_key (\<lambda>i. fitness (evals ! i)) [0..<length pop]) ii jj)
       (rank_pairs (length pop)) (pop, g) \<and>
   (ii < length sorted_idx \<and> jj < ii \<and>
    sorted_idx ! ii < length pop1 \<and> sorted_idx ! jj < length pop1 \<and>
    sorted_idx ! ii < length evals1 \<and> sorted_idx ! jj < length evals1 \<longrightarrow>
      firefly_pair prob1 evals1 sorted_idx ii jj (pop1, g1) =
        (if fitness (evals1 ! (sorted_idx ! jj)) < fitness (evals1 ! (sorted_idx ! ii))
         then ebind (firefly_move prob1 (pop1 ! (sorted_idx ! ii)) (pop1 ! (sorted_idx ! jj)) g1)
                (\<lambda>(part', g'). Inr (pop1[sorted_idx ! ii := part'], g'))
         else Inr (pop1, g1))) \<and>
   (length (p_place_loc part) = prob_P prob2 \<and> length (p_place_loc brighter) = prob_P prob2 \<and>
    length (p_assign_dev part) = prob_E prob2 \<and> length (p_assign_dev brighter) = prob_E prob2 \<longrightarrow>
      firefly_move prob2 part brighter g2 =
        Inr (part\<lparr> p_place_loc :=
                      map (\<lambda>p. if p_place_loc brighter ! p \<noteq> p_place_loc part ! p \<and>
                                  py_unif g2 (py_pos g2 +
                                    ndiff (p_place_loc brighter) (p_place_loc part) p) < 0.5
                               then p_place_loc brighter ! p else p_place_loc part ! p)
                        [0..<prob_P prob2],
                    p_assign_dev :=
                      map (\<lambda>e. if p_assign_dev brighter ! e \<noteq> p_assign_dev part ! e \<and>
                                  py_unif g2 (py_pos g2 +
                                    ndiff (p_place_loc brighter) (p_place_loc part) (prob_P prob2) +
                                    ndiff (p_assign_dev brighter) (p_assign_dev part) e) < 0.4
                               then p_assign_dev brighter ! e else p_assign_dev part ! e)
                        [0..<prob_E prob2] \<rparr>,
             g2\<lparr> py_pos := py_pos g2 +
                    ndiff (p_place_loc brighter) (p_place_loc part) (prob_P prob2) +
                    ndiff (p_assign_dev brighter) (p_assign_dev part) (prob_E prob2) \<rparr>))"
proof (intro conjI impI)
  show "firefly_phase prob evals (pop, g) =
     efold (\<lambda>(ii, jj). firefly_pair prob evals
                          (sort_key (\<lambda>i. fitness (evals ! i)) [0..<length pop]) ii jj)
       (rank_pairs (length pop)) (pop, g)"
    by (rule firefly_phase_pairs)
next
  assume a: "ii < length sorted_idx \<and> jj < ii \<and>
    sorted_idx ! ii < length pop1 \<and> sorted_idx ! jj < length pop1 \<and>
    sorted_idx ! ii < length evals1 \<and> sorted_idx ! jj < length evals1"
  then have "jj < length sorted_idx" by simp
  with a show "firefly_pair prob1 evals1 sorted_idx ii jj (pop1, g1) =
        (if fitness (evals1 ! (sorted_idx ! jj)) < fitness (evals1 ! (sorted_idx ! ii))
         then ebind (firefly_move prob1 (pop1 ! (sorted_idx ! ii)) (pop1 ! (sorted_idx ! jj)) g1)
                (\<lambda>(part', g'). Inr (pop1[sorted_idx ! ii := part'], g'))
         else Inr (pop1, g1))"
    by (intro firefly_pair_val) simp_all
next
  assume a: "length (p_place_loc part) = prob_P prob2 \<and> length (p_place_loc brighter) = prob_P prob2 \<and>
    length (p_assign_dev part) = prob_E prob2 \<and> length (p_assign_dev brighter) = prob_E prob2"
  then have "firefly_move prob2 part brighter g2 =
     Inr (part\<lparr> p_place_loc :=
                   map (ff_slot 0.5 (p_place_loc brighter) (p_place_loc part) g2 (py_pos g2))
                     [0..<prob_P prob2],
                 p_assign_dev :=
                   map (ff_slot 0.4 (p_assign_dev brighter) (p_assign_dev part) g2
                          (py_pos g2 + ndiff (p_place_loc brighter) (p_place_loc part) (prob_P prob2)))
                     [0..<prob_E prob2] \<rparr>,
          g2\<lparr> py_pos := py_pos g2 + ndiff (p_place_loc brighter) (p_place_loc part) (prob_P prob2) +
                          ndiff (p_assign_dev brighter) (p_assign_dev part) (prob_E prob2) \<rparr>)"
    by (intro firefly_move_val) simp_all
  then show "firefly_move prob2 part brighter g2 =
        Inr (part\<lparr> p_place_loc :=
                      map (\<lambda>p. if p_place_loc brighter ! p \<noteq> p_place_loc part ! p \<and>
                                  py_unif g2 (py_pos g2 +
                                    ndiff (p_place_loc brighter) (p_place_loc part) p) < 0.5
                               then p_place_loc brighter ! p else p_place_loc part ! p)
                        [0..<prob_P prob2],
                    p_assign_dev :=
                      map (\<lambda>e. if p_assign_dev brighter ! e \<noteq> p_assign_dev part ! e \<and>
                                  py_unif g2 (py_pos g2 +
                                    ndiff (p_place_loc brighter) (p_place_loc part) (prob_P prob2) +
                                    ndiff (p_assign_dev brighter) (p_assign_dev part) e) < 0.4
                               then p_assign_dev brighter ! e else p_assign_dev part ! e)
                        [0..<prob_E prob2] \<rparr>,
             g2\<lparr> py_pos := py_pos g2 +
                    ndiff (p_place_loc brighter) (p_place_loc part) (prob_P prob2) +
                    ndiff (p_assign_dev brighter) (p_assign_dev part) (prob_E prob2) \<rparr>)"
    by (simp add: ff_slot_def[abs_def])
qed


theorem firefly_phase_moves_witness:
  "firefly_move (CloudletProblem_init inst_C) (pop_F ! 0) (pop_F ! 1) rng_F =
     Inr ((Particle_init [1, 0] [0, 0])\<lparr> p_place_loc := [1, 2], p_assign_dev := [0, 1] \<rparr>,
          rng_F\<lparr> py_pos := 3 \<rparr>) \<and>
   firefly_pair (CloudletProblem_init inst_C) evals_F [1, 0] 1 0 (pop_F, rng_F) =
     Inr ([(Particle_init [1, 0] [0, 0])\<lparr> p_place_loc := [1, 2], p_assign_dev := [0, 1] \<rparr>,
           Particle_init [1, 2] [1, 1]], rng_F\<lparr> py_pos := 3 \<rparr>) \<and>
   firefly_phase (CloudletProblem_init inst_C) evals_F (pop_F, rng_F) =
     Inr ([(Particle_init [1, 0] [0, 0])\<lparr> p_place_loc := [1, 2], p_assign_dev := [0, 1] \<rparr>,
           Particle_init [1, 2] [1, 1]], rng_F\<lparr> py_pos := 3 \<rparr>)"
proof -
  note t = firefly_phase_moves[where prob = "CloudletProblem_init inst_C" and evals = evals_F
      and pop = pop_F and g = rng_F and ii = 1 and jj = 0 and sorted_idx = "[1, 0]"
      and ?pop1.0 = pop_F and ?evals1.0 = evals_F and ?prob1.0 = "CloudletProblem_init inst_C"
      and ?g1.0 = rng_F and ?prob2.0 = "CloudletProblem_init inst_C" and part = "pop_F ! 0"
      and brighter = "pop_F ! 1" and ?g2.0 = rng_F]
  have len: "length (p_place_loc (pop_F ! 0)) = prob_P (CloudletProblem_init inst_C) \<and>
      length (p_place_loc (pop_F ! 1)) = prob_P (CloudletProblem_init inst_C) \<and>
      length (p_assign_dev (pop_F ! 0)) = prob_E (CloudletProblem_init inst_C) \<and>
      length (p_assign_dev (pop_F ! 1)) = prob_E (CloudletProblem_init inst_C)"
    by (simp add: pop_F_def Particle_init_def prob_C)
  from t len have "firefly_move (CloudletProblem_init inst_C) (pop_F ! 0) (pop_F ! 1) rng_F =
        Inr ((pop_F ! 0)\<lparr> p_place_loc :=
                      map (\<lambda>p. if p_place_loc (pop_F ! 1) ! p \<noteq> p_place_loc (pop_F ! 0) ! p \<and>
                                  py_unif rng_F (py_pos rng_F +
                                    ndiff (p_place_loc (pop_F ! 1)) (p_place_loc (pop_F ! 0)) p) < 0.5
                               then p_place_loc (pop_F ! 1) ! p else p_place_loc (pop_F ! 0) ! p)
                        [0..<prob_P (CloudletProblem_init inst_C)],
                    p_assign_dev :=
                      map (\<lambda>e. if p_assign_dev (pop_F ! 1) ! e \<noteq> p_assign_dev (pop_F ! 0) ! e \<and>
                                  py_unif rng_F (py_pos rng_F +
                                    ndiff (p_place_loc (pop_F ! 1)) (p_place_loc (pop_F ! 0))
                                      (prob_P (CloudletProblem_init inst_C)) +
                                    ndiff (p_assign_dev (pop_F ! 1)) (p_assign_dev (pop_F ! 0)) e) < 0.4
                               then p_assign_dev (pop_F ! 1) ! e else p_assign_dev (pop_F ! 0) ! e)
                        [0..<prob_E (CloudletProblem_init inst_C)] \<rparr>,
             rng_F\<lparr> py_pos := py_pos rng_F +
                    ndiff (p_place_loc (pop_F ! 1)) (p_place_loc (pop_F ! 0))
                      (prob_P (CloudletProblem_init inst_C)) +
                    ndiff (p_assign_dev (pop_F ! 1)) (p_assign_dev (pop_F ! 0))
                      (prob_E (CloudletProblem_init inst_C)) \<rparr>)"
    by blast
  then have mv: "firefly_move (CloudletProblem_init inst_C) (pop_F ! 0) (pop_F ! 1) rng_F =
     Inr ((Particle_init [1, 0] [0, 0])\<lparr> p_place_loc := [1, 2], p_assign_dev := [0, 1] \<rparr>,
          rng_F\<lparr> py_pos := 3 \<rparr>)"
    by (simp add: prob_C pop_F_def Particle_init_def ndiff_def rng_F_def numeral_2_eq_2)
  have hyp: "(1::nat) < length [1, 0 :: nat] \<and> (0::nat) < 1 \<and>
      [1, 0] ! 1 < length pop_F \<and> [1, 0] ! 0 < length pop_F \<and>
      [1, 0] ! 1 < length evals_F \<and> [1, 0] ! 0 < length evals_F"
    by (simp add: pop_F_def evals_F_def)
  from t hyp have "firefly_pair (CloudletProblem_init inst_C) evals_F [1, 0] 1 0 (pop_F, rng_F) =
        (if fitness (evals_F ! ([1, 0] ! 0)) < fitness (evals_F ! ([1, 0] ! 1))
         then ebind (firefly_move (CloudletProblem_init inst_C) (pop_F ! ([1, 0] ! 1))
                       (pop_F ! ([1, 0] ! 0)) rng_F)
                (\<lambda>(part', g'). Inr (pop_F[[1, 0] ! 1 := part'], g'))
         else Inr (pop_F, rng_F))"
    by blast
  then have pr: "firefly_pair (CloudletProblem_init inst_C) evals_F [1, 0] 1 0 (pop_F, rng_F) =
     Inr ([(Particle_init [1, 0] [0, 0])\<lparr> p_place_loc := [1, 2], p_assign_dev := [0, 1] \<rparr>,
           Particle_init [1, 2] [1, 1]], rng_F\<lparr> py_pos := 3 \<rparr>)"
    using mv by (simp add: ebind_Inr evals_F_def pop_F_def)
  have so: "sort_key (\<lambda>i. fitness (evals_F ! i)) [0..<length pop_F] = [1, 0]"
    by (simp add: pop_F_def evals_F_def)
  have rp: "rank_pairs (length pop_F) = [(1, 0)]"
    by (simp add: pop_F_def rank_pairs_def)
  from t have "firefly_phase (CloudletProblem_init inst_C) evals_F (pop_F, rng_F) =
     efold (\<lambda>(ii, jj). firefly_pair (CloudletProblem_init inst_C) evals_F
                          (sort_key (\<lambda>i. fitness (evals_F ! i)) [0..<length pop_F]) ii jj)
       (rank_pairs (length pop_F)) (pop_F, rng_F)"
    by blast
  then have ph: "firefly_phase (CloudletProblem_init inst_C) evals_F (pop_F, rng_F) =
     Inr ([(Particle_init [1, 0] [0, 0])\<lparr> p_place_loc := [1, 2], p_assign_dev := [0, 1] \<rparr>,
           Particle_init [1, 2] [1, 1]], rng_F\<lparr> py_pos := 3 \<rparr>)"
    using pr by (simp add: so rp ebind_Inr)
  from mv pr ph show ?thesis by blast
qed

section \<open>Repair of a solution that is feasible without tolerance\<close>

text \<open>
  Where every coverage and capacity test holds without evaluate's tolerance, the repair
  returns the solution as it is: the solutions it perturbs lie in the tolerance band.
\<close>

lemma efold_fixed: "(\<And>x. x \<in> set xs \<Longrightarrow> f x s = Inr s) \<Longrightarrow> efold f xs s = Inr s"
  by (induction xs) (simp_all add: ebind_Inr)

lemma feasible_loop:
  assumes "types_ok prob" "dist_ok prob" "valid_placement prob pl"
  shows "n \<le> prob_E prob \<Longrightarrow>
    efold (\<lambda>e feasible. ebind (covering_locations prob pl e) (\<lambda>cs. Inr (feasible @ [cs])))
      [0..<n] fs =
    Inr (fs @ map (\<lambda>e. filter (covers prob pl e) [0..<prob_P prob]) [0..<n])"
proof (induction n)
  case 0
  show ?case by simp
next
  case (Suc n)
  then have "n < prob_E prob" by simp
  from covering_locations_val[OF assms this] Suc show ?case
    by (simp add: efold_snoc ebind_Inr)
qed

lemma feasible_init_val:
  assumes "types_ok prob" "dist_ok prob" "valid_placement prob pl"
  shows "feasible_init prob pl =
     Inr (map (\<lambda>e. filter (covers prob pl e) [0..<prob_P prob]) [0..<prob_E prob])"
  using feasible_loop[OF assms, of "prob_E prob" "[]"] by (simp add: feasible_init_def)

lemma fix_step_feasible:
  assumes "strictly_feasible prob pl a" "length a = prob_E prob" "e < prob_E prob" "h ! as = a"
    "f = map (\<lambda>e. filter (covers prob pl e) [0..<prob_P prob]) [0..<prob_E prob]"
  shows "fix_step prob plc as e (h, f, g) = Inr (h, f, g)"
proof -
  from assms(1,3) have r: "0 \<le> a ! e" "a ! e < int (prob_P prob)"
    "covers prob pl e (nat (a ! e))" by (simp_all add: strictly_feasible_def)
  then have "nat (a ! e) < prob_P prob" by linarith
  with r(3) have "nat (a ! e) \<in> set (f ! e)" using assms(3,5) by simp
  with r assms(2,3,4) show ?thesis
    by (simp add: fix_step_def np_get_Inr ebind_Inr)
qed

lemma relieve_step_feasible:
  assumes "types_ok prob" "valid_placement prob pl" "strictly_feasible prob pl a"
    "used_is prob a (prob_E prob) u" "p < prob_P prob" "h ! plc = pl"
  shows "relieve_step prob plc as f p (h, u, False) = Inr (h, u, False)"
proof -
  have l: "p < length pl" using assms(2,5) by (simp add: valid_placement_def)
  have b: "0 \<le> pl ! p \<and> pl ! p \<le> int (prob_T prob)" using valid_placement_nth[OF assms(2,5)] .
  show ?thesis
  proof (cases "pl ! p = 0")
    case True
    with l assms(6) show ?thesis by (simp add: relieve_step_def np_get_Inr ebind_Inr)
  next
    case False
    then have pos: "0 < pl ! p" using b by simp
    let ?t = "prob_cloudlet_types prob ! nat (pl ! p - 1)"
    have cap: "capacity_of prob pl p = Inr (ct_CPU ?t, ct_MEM ?t, ct_STO ?t)"
      using False l py_index_type[OF assms(1) pos] b
      by (simp add: capacity_of_def np_get_Inr ebind_Inr)
    from assms(3,5) False have
      "assigned_sum prob a d_cpu (prob_E prob) p \<le> ct_CPU ?t"
      "assigned_sum prob a d_mem (prob_E prob) p \<le> ct_MEM ?t"
      "assigned_sum prob a d_sto (prob_E prob) p \<le> ct_STO ?t"
      by (simp_all add: strictly_feasible_def)
    moreover from assms(4,5) have
      "cpu_used u ! p = assigned_sum prob a d_cpu (prob_E prob) p"
      "mem_used u ! p = assigned_sum prob a d_mem (prob_E prob) p"
      "sto_used u ! p = assigned_sum prob a d_sto (prob_E prob) p"
      by (simp_all add: used_is_def)
    ultimately show ?thesis
      using False l assms(6) cap
      by (simp add: relieve_step_def np_get_Inr ebind_Inr)
  qed
qed

lemma capacity_passes_feasible:
  assumes "types_ok prob" "demands_ok prob" "valid_placement prob pl"
    "strictly_feasible prob pl a" "length a = prob_E prob" "h ! plc = pl" "h ! as = a"
  shows "capacity_passes prob plc as f (Suc n) h = Inr h"
proof -
  from demand_used_is[OF assms(2,5)] obtain u where
    u: "demand_used prob a = Inr u" and ui: "used_is prob a (prob_E prob) u" by auto
  have "efold (relieve_step prob plc as f) [0..<prob_P prob] (h, u, False) = Inr (h, u, False)"
    by (rule efold_fixed) (simp add: relieve_step_feasible[OF assms(1,3,4) ui _ assms(6)])
  with u assms(7) show ?thesis by (simp add: ebind_Inr)
qed

lemma repair_values_strictly_feasible:
  assumes "types_ok prob" "dist_ok prob" "demands_ok prob" "valid_placement prob pl"
    "length a = prob_E prob" "strictly_feasible prob pl a"
  shows "repair_values prob pl a g = Inr (pl, a, g)"
proof -
  let ?h = "[pl, a, pl, a]"
  let ?f = "map (\<lambda>e. filter (covers prob pl e) [0..<prob_P prob]) [0..<prob_E prob]"
  have cp: "np_copy [pl, a] 0 = ([pl, a, pl], 2)" "np_copy [pl, a, pl] (Suc 0) = (?h, 3)"
    by (simp_all add: np_copy_def)
  have fi: "feasible_init prob pl = Inr ?f"
    using feasible_init_val[OF assms(1,2,4)] by simp
  have fx: "efold (fix_step prob 2 3) [0..<prob_E prob] (?h, ?f, g) = Inr (?h, ?f, g)"
    by (rule efold_fixed) (simp add: fix_step_feasible[OF assms(6,5) _ _ refl])
  have cap: "capacity_passes prob 2 3 ?f 3 ?h = Inr ?h"
    using capacity_passes_feasible[OF assms(1,3,4,6,5), of ?h 2 3 ?f 2]
    by (simp add: numeral_3_eq_3)
  show ?thesis
    by (simp add: repair_values_def repair_solution_def cp fi fx cap ebind_Inr)
qed

end
